theory Spec2Isabelle
  imports Main "HOL-Library.Multiset" "HOL-Library.While_Combinator"
begin

section \<open>Graph substrate\<close>

text \<open>
  The program \<^verbatim>\<open>triconnect.c\<close> works on LEDA graphs. LEDA itself is a library outside
  the program, so the graph operations the program calls are modelled here from what the
  specification (sections 3 and 4.1) and the LEDA manual say about them.

  Nodes and edges are arena indices. An edge keeps its identity when it is hidden
  (a flag), and every node has an ordered adjacency list. \<^verbatim>\<open>typedef list<node> path\<close>
  and \<^verbatim>\<open>typedef list<edge> epath\<close> are HOL lists.
\<close>

type_synonym node = nat
type_synonym edge = nat
type_synonym path = "node list"
type_synonym epath = "edge list"

record graph =
  all_nodes :: "node list"
  all_edges :: "edge list"
  source :: "edge \<Rightarrow> node"
  target :: "edge \<Rightarrow> node"
  hidden :: "edge \<Rightarrow> bool"
  adj_edges :: "node \<Rightarrow> edge list"
  in_edges :: "node \<Rightarrow> edge list"
  undirected :: bool
  node_inf :: "node \<Rightarrow> node"

text \<open>
  \<^item> \<open>all_nodes\<close>, \<open>all_edges\<close>: the nodes and edges in creation order
    (\<^verbatim>\<open>forall_nodes\<close>, \<^verbatim>\<open>forall_edges\<close>; the latter skips hidden edges);
  \<^item> \<open>adj_edges v\<close>: the adjacency list of \<open>v\<close>; in an undirected graph it holds every
    edge incident to \<open>v\<close>. A hidden edge keeps its place and is skipped by every
    iteration and by \<open>degree\<close>;
  \<^item> \<open>in_edges v\<close>: the edges into \<open>v\<close> of a directed graph (used until
    \<^verbatim>\<open>make_undirected\<close>);
  \<^item> \<open>node_inf\<close>: the node information of a \<^verbatim>\<open>GRAPH<node,edge>\<close>, written \<^verbatim>\<open>H[v]\<close>.
\<close>

definition empty_graph :: graph where
  "empty_graph = \<lparr> all_nodes = [], all_edges = [], source = (\<lambda>_. 0), target = (\<lambda>_. 0),
     hidden = (\<lambda>_. False), adj_edges = (\<lambda>_. []), in_edges = (\<lambda>_. []),
     undirected = False, node_inf = (\<lambda>v. v) \<rparr>"

definition is_hidden :: "graph \<Rightarrow> edge \<Rightarrow> bool" where
  "is_hidden G e = hidden G e"

definition visible_edges :: "graph \<Rightarrow> edge list" where
  "visible_edges G = filter (\<lambda>e. \<not> hidden G e) (all_edges G)"

definition adj_visible :: "graph \<Rightarrow> node \<Rightarrow> edge list" where
  "adj_visible G v = filter (\<lambda>e. \<not> hidden G e) (adj_edges G v)"

definition degree :: "graph \<Rightarrow> node \<Rightarrow> nat" where
  "degree G v = length (adj_visible G v)"

definition opposite :: "graph \<Rightarrow> node \<Rightarrow> edge \<Rightarrow> node" where
  "opposite G v e = (if v = source G e then target G e else source G e)"

definition first_visible :: "graph \<Rightarrow> edge list \<Rightarrow> edge option" where
  "first_visible G es = (case filter (\<lambda>e. \<not> hidden G e) es of [] \<Rightarrow> None | e # _ \<Rightarrow> Some e)"

definition First_Inout_Edge :: "graph \<Rightarrow> node \<Rightarrow> edge option" where
  "First_Inout_Edge G v = first_visible G (adj_edges G v)"

definition first_adj_edge :: "graph \<Rightarrow> node \<Rightarrow> edge option" where
  "first_adj_edge G v = first_visible G (adj_edges G v)"

text \<open>
  The next cursor: the first visible edge behind \<open>e\<close> in the adjacency list of \<open>v\<close>. The
  callers read it before they hide or move \<open>e\<close>.
\<close>

definition Succ_Inout_Edge :: "graph \<Rightarrow> edge \<Rightarrow> node \<Rightarrow> edge option" where
  "Succ_Inout_Edge G e v = first_visible G (tl (dropWhile (\<lambda>x. x \<noteq> e) (adj_edges G v)))"

definition hide_edge :: "graph \<Rightarrow> edge \<Rightarrow> graph" where
  "hide_edge G e = G\<lparr> hidden := (hidden G)(e := True) \<rparr>"

text \<open>
  \<^verbatim>\<open>new_node\<close> and \<^verbatim>\<open>new_edge\<close> number the new object with the count of the objects
  made so far. \<^verbatim>\<open>new_edge(v,w)\<close> appends the edge to \<open>adj_edges v\<close> and to \<open>in_edges w\<close>;
  in an undirected graph the only list of a node is \<open>adj_edges\<close>.
\<close>

definition ins_adj_edge :: "graph \<Rightarrow> edge \<Rightarrow> node \<Rightarrow> node \<Rightarrow> graph" where
  "ins_adj_edge G e v w =
     (let G1 = G\<lparr> source := (source G)(e := v), target := (target G)(e := w) \<rparr>;
          G2 = G1\<lparr> adj_edges := (adj_edges G1)(v := adj_edges G1 v @ [e]) \<rparr>
      in if undirected G
         then G2\<lparr> adj_edges := (adj_edges G2)(w := adj_edges G2 w @ [e]) \<rparr>
         else G2\<lparr> in_edges := (in_edges G2)(w := in_edges G2 w @ [e]) \<rparr>)"

definition del_adj_edge :: "graph \<Rightarrow> edge \<Rightarrow> graph" where
  "del_adj_edge G e =
     G\<lparr> adj_edges := (\<lambda>v. removeAll e (adj_edges G v)),
        in_edges := (\<lambda>v. removeAll e (in_edges G v)) \<rparr>"

definition new_node :: "graph \<Rightarrow> node \<Rightarrow> graph \<times> node" where
  "new_node G i =
     (let v = length (all_nodes G)
      in (G\<lparr> all_nodes := all_nodes G @ [v], node_inf := (node_inf G)(v := i) \<rparr>, v))"

definition new_edge :: "graph \<Rightarrow> node \<Rightarrow> node \<Rightarrow> graph" where
  "new_edge G v w =
     (let e = length (all_edges G)
      in ins_adj_edge (G\<lparr> all_edges := all_edges G @ [e],
                          hidden := (hidden G)(e := False) \<rparr>) e v w)"

text \<open>
  \<^verbatim>\<open>move_edge(e,v,w)\<close> takes \<open>e\<close> out of the lists of its old end points, makes \<open>v\<close> its
  source and \<open>w\<close> its target, and appends it to their lists.
\<close>

definition move_edge :: "graph \<Rightarrow> edge \<Rightarrow> node \<Rightarrow> node \<Rightarrow> graph" where
  "move_edge G e v w = ins_adj_edge (del_adj_edge G e) e v w"

definition make_undirected :: "graph \<Rightarrow> graph" where
  "make_undirected G =
     (if undirected G then G
      else G\<lparr> adj_edges := (\<lambda>v. adj_edges G v @ in_edges G v),
              in_edges := (\<lambda>_. []), undirected := True \<rparr>)"

section \<open>Path absorption\<close>

text \<open>
  Every \<^verbatim>\<open>exit\<close> of the program is a value of \<open>error\<close>; the build modelled is the one of
  the file as it stands (\<^verbatim>\<open>TRIM\<close> not defined, so the checks under
  \<^verbatim>\<open>#ifndef TRIM\<close> are compiled in). The display code under \<^verbatim>\<open>DISP\<close> does not
  touch the state of the algorithm and is left out.
\<close>

datatype error =
    HideHiddenEdge        \<comment> \<open>"Attempt to hide hidden edge"\<close>
  | HiddenEdgeProcessed   \<comment> \<open>" hidden edge being processed"\<close>
  | MoveSelfLoop          \<comment> \<open>" attempting to move self loop"\<close>
  | NotHeadOfList         \<comment> \<open>"u=... not head of list"\<close>
  | PuMinusUFailed        \<comment> \<open>"Pu = Pu -u failed"\<close>
  | PathNotEmpty          \<comment> \<open>"Pu not empty", "Pw not empty"\<close>
  | BridgeNotRemoved      \<comment> \<open>"Bridge not removed"\<close>
  | LedaPrecondition      \<comment> \<open>a LEDA call outside its precondition (pop of an empty list,
                             no first edge)\<close>
  | UndefinedRead         \<comment> \<open>a read of a variable or an array slot that was never set, or
                             outside the array\<close>

type_synonym sigma = "node \<Rightarrow> path"

text \<open>\<^verbatim>\<open>sigma[x0].conc(sigma[xi])\<close>: the list of \<open>xi\<close> is appended to that of \<open>x0\<close> and emptied.\<close>

definition conc_sigma :: "sigma \<Rightarrow> node \<Rightarrow> node \<Rightarrow> sigma" where
  "conc_sigma sg x0 xi = (sg(xi := []))(x0 := sg x0 @ sg xi)"

text \<open>
  The loop over the edges of \<open>xi\<close> in \<^verbatim>\<open>AbsorbPath(G,sigma,cols,P)\<close>. The cursor \<open>nxte\<close> is
  read before the edge is touched and the body touches no other edge, so the loop runs
  over the visible edges that \<open>xi\<close> has when it starts.
\<close>

fun absorb_edges :: "graph \<Rightarrow> node \<Rightarrow> node \<Rightarrow> node \<Rightarrow> edge list \<Rightarrow> error + graph" where
  "absorb_edges G xi xm1 x0 [] = Inr G"
| "absorb_edges G xi xm1 x0 (e # es) =
     (let z = opposite G xi e in
      if z = xm1 \<or> z = x0 then
        (if is_hidden G e then Inl HideHiddenEdge
         else absorb_edges (hide_edge G e) xi xm1 x0 es)
      else if source G e = target G e then Inl MoveSelfLoop
      else absorb_edges (move_edge G e x0 z) xi xm1 x0 es)"

text \<open>
  The \<^verbatim>\<open>while(xm1 != x0 && xm1 != NULL)\<close> loop. \<^verbatim>\<open>P.Pop()\<close> takes the last element of the
  list; on an empty list it is outside LEDA's precondition.
\<close>

function absorb_loop :: "graph \<Rightarrow> sigma \<Rightarrow> path \<Rightarrow> node \<Rightarrow> node \<Rightarrow> error + graph \<times> sigma \<times> path" where
  "absorb_loop G sg P x0 xm1 =
     (if xm1 \<noteq> x0 then
        (if P = [] then Inl LedaPrecondition
         else
           (let xi = xm1; xm1' = last P; P' = butlast P; sg' = conc_sigma sg x0 xi in
            case absorb_edges G xi xm1' x0 (adj_visible G xi) of
              Inl err \<Rightarrow> Inl err
            | Inr G' \<Rightarrow> absorb_loop G' sg' P' x0 xm1'))
      else Inr (G, sg, P))"
  by pat_completeness auto
termination
  by (relation "measure (\<lambda>(G, sg, P, x0, xm1). length P)") auto

declare absorb_loop.simps [simp del]

definition AbsorbPath :: "graph \<Rightarrow> sigma \<Rightarrow> path \<Rightarrow> error + graph \<times> sigma \<times> path" where
  "AbsorbPath G sg P =
     (if P = [] then Inr (G, sg, P)
      else
        (let x0 = hd P; xm1 = last P; P1 = butlast P in
         if P1 = [] then Inr (G, sg, P1)
         else absorb_loop G sg P1 x0 xm1))"

text \<open>
  \<^verbatim>\<open>AbsorbPath(G,sigma,cols,P,u,v)\<close>: the same loop over the edges of \<open>xi\<close>, with a
  check for a hidden edge in front.
\<close>

fun absorb_edges_uv :: "graph \<Rightarrow> node \<Rightarrow> node \<Rightarrow> node \<Rightarrow> edge list \<Rightarrow> error + graph" where
  "absorb_edges_uv G xi xm1 x0 [] = Inr G"
| "absorb_edges_uv G xi xm1 x0 (e # es) =
     (if is_hidden G e then Inl HiddenEdgeProcessed
      else
        (let z = opposite G xi e in
         if z = xm1 \<or> z = x0 then
           (if is_hidden G e then Inl HideHiddenEdge
            else absorb_edges_uv (hide_edge G e) xi xm1 x0 es)
         else if source G e = target G e then Inl MoveSelfLoop
         else absorb_edges_uv (move_edge G e x0 z) xi xm1 x0 es))"

text \<open>
  The list item \<^verbatim>\<open>itn1\<close> walks from the last item of \<open>P\<close> towards the head. A position
  in the list is kept as the items in front of it (nearest first), the item itself and
  the items behind it. \<open>find_from_tail\<close> is the first loop
  (\<^verbatim>\<open>while(itn1 != nil && (xm1=P[itn1]) != v) itn1 = P.pred(itn1)\<close>); \<open>None\<close> is
  \<^verbatim>\<open>itn1 == nil\<close>.
\<close>

fun find_from_tail :: "node \<Rightarrow> node list \<Rightarrow> node list \<Rightarrow> (node list \<times> node \<times> node list) option" where
  "find_from_tail v [] behind = None"
| "find_from_tail v (x # front) behind =
     (if x = v then Some (front, x, behind) else find_from_tail v front (x # behind))"

text \<open>
  The second loop, \<^verbatim>\<open>while(xm1 != u && xm1 != NULL)\<close>. Its \<^verbatim>\<open>break\<close> is taken when there
  is no item in front (\<^verbatim>\<open>itn1 == nil\<close>); the other disjunct \<^verbatim>\<open>xi == u\<close> cannot hold
  inside the loop. \<^verbatim>\<open>P.del_item(itn2)\<close> removes \<open>xi\<close> from \<open>P\<close>.
\<close>

fun absorb_uv_loop ::
  "graph \<Rightarrow> sigma \<Rightarrow> node \<Rightarrow> node \<Rightarrow> node list \<Rightarrow> node \<Rightarrow> node list \<Rightarrow> error + graph \<times> sigma \<times> path" where
  "absorb_uv_loop G sg u x0 [] xm1 behind =
     Inr (G, sg, xm1 # behind)"
| "absorb_uv_loop G sg u x0 (y # front) xm1 behind =
     (if xm1 \<noteq> u then
        (let xi = xm1 in
         case absorb_edges_uv G xi y x0 (adj_visible G xi) of
           Inl err \<Rightarrow> Inl err
         | Inr G' \<Rightarrow> absorb_uv_loop G' (conc_sigma sg x0 xi) u x0 front y behind)
      else Inr (G, sg, rev (y # front) @ xm1 # behind))"

definition AbsorbPath_uv :: "graph \<Rightarrow> sigma \<Rightarrow> path \<Rightarrow> node \<Rightarrow> node \<Rightarrow> error + graph \<times> sigma \<times> path" where
  "AbsorbPath_uv G sg P u v =
     (if P = [] then Inr (G, sg, P)
      else
        (let x0 = hd P in
         if x0 \<noteq> u then Inl NotHeadOfList
         else
           (case find_from_tail v (rev P) [] of
              None \<Rightarrow> Inr (G, sg, P)
            | Some (front, xm1, behind) \<Rightarrow> absorb_uv_loop G sg u x0 front xm1 behind)))"

section \<open>The depth-first search\<close>

text \<open>
  The arrays of \<^verbatim>\<open>triedge_dfs\<close> and the counter \<^verbatim>\<open>count2\<close> it shares by reference. The
  parameters \<^verbatim>\<open>count1\<close> and \<^verbatim>\<open>cols\<close> are never read. The C \<^verbatim>\<open>int\<close>s hold
  depth-first numbers, at most the number of nodes, and are modelled by \<open>int\<close>.
\<close>

record dfs_state =
  dfs_G :: graph
  dfs_sigma :: sigma
  pre :: "node \<Rightarrow> int"
  lowpt :: "node \<Rightarrow> int"
  father :: "node \<Rightarrow> node option"
  count2 :: int

text \<open>
  After the recursive call for a tree edge \<open>(w,u)\<close>: when \<open>u\<close> has degree 2 the edge is
  hidden, the other edge of \<open>u\<close> is moved to \<open>w\<close> and \<open>u\<close> is popped off the front of \<open>Pu\<close>.
\<close>

definition contract_deg2 :: "dfs_state \<Rightarrow> node \<Rightarrow> node \<Rightarrow> edge \<Rightarrow> path \<Rightarrow> error + dfs_state \<times> path" where
  "contract_deg2 s w u ewu Pu =
     (if degree (dfs_G s) u = 2 then
        (let G1 = hide_edge (dfs_G s) ewu in
         case first_adj_edge G1 u of
           None \<Rightarrow> Inl LedaPrecondition
         | Some euz \<Rightarrow>
             (let z = opposite G1 u euz in
              if u = z then Inl MoveSelfLoop
              else
                (let G2 = move_edge G1 euz w z in
                 case Pu of
                   [] \<Rightarrow> Inl LedaPrecondition
                 | x # Pu' \<Rightarrow>
                     if x \<noteq> u then Inl PuMinusUFailed
                     else Inr (s\<lparr> dfs_G := G2 \<rparr>, Pu'))))
      else Inr (s, Pu))"

text \<open>The result is the state, \<open>Pw\<close> and \<open>Pu\<close>.\<close>

definition absorb_or_extend ::
  "dfs_state \<Rightarrow> node \<Rightarrow> node \<Rightarrow> path \<Rightarrow> path \<Rightarrow> error + dfs_state \<times> path \<times> path" where
  "absorb_or_extend s w u Pw Pu =
     (if lowpt s w \<le> lowpt s u then
        (case AbsorbPath (dfs_G s) (dfs_sigma s) (w # Pu) of
           Inl err \<Rightarrow> Inl err
         | Inr (G', sg', Pu') \<Rightarrow>
             if Pu' \<noteq> [] then Inl PathNotEmpty
             else Inr (s\<lparr> dfs_G := G', dfs_sigma := sg' \<rparr>, Pw, Pu'))
      else
        (let s1 = s\<lparr> lowpt := (lowpt s)(w := lowpt s u) \<rparr> in
         case AbsorbPath (dfs_G s1) (dfs_sigma s1) Pw of
           Inl err \<Rightarrow> Inl err
         | Inr (G', sg', Pw') \<Rightarrow>
             if Pw' \<noteq> [] then Inl PathNotEmpty
             else Inr (s1\<lparr> dfs_G := G', dfs_sigma := sg' \<rparr>, w # (Pw' @ Pu), [])))"

definition tree_edge ::
  "dfs_state \<Rightarrow> node \<Rightarrow> node \<Rightarrow> edge \<Rightarrow> path \<Rightarrow> path \<Rightarrow> error + dfs_state \<times> path \<times> path" where
  "tree_edge s w u ewu Pw Pu =
     (case contract_deg2 s w u ewu Pu of
        Inl err \<Rightarrow> Inl err
      | Inr (s1, Pu1) \<Rightarrow> absorb_or_extend s1 w u Pw Pu1)"

text \<open>
  The branch for \<^verbatim>\<open>pre[u] >= 0\<close>. The inner test of the outgoing case repeats the
  outer one and is kept as the source has it.
\<close>

definition back_edge :: "dfs_state \<Rightarrow> node \<Rightarrow> node \<Rightarrow> path \<Rightarrow> error + dfs_state \<times> path" where
  "back_edge s w u Pw =
     (if pre s u < pre s w then
        (if pre s u < lowpt s w then
           (case AbsorbPath (dfs_G s) (dfs_sigma s) Pw of
              Inl err \<Rightarrow> Inl err
            | Inr (G', sg', Pw') \<Rightarrow>
                Inr (s\<lparr> dfs_G := G', dfs_sigma := sg', lowpt := (lowpt s)(w := pre s u) \<rparr>, [w]))
         else
           (if pre s u < lowpt s w
            then Inr (s\<lparr> lowpt := (lowpt s)(w := pre s u) \<rparr>, Pw)
            else Inr (s, Pw)))
      else
        (case (if pre s u > pre s w
               then AbsorbPath_uv (dfs_G s) (dfs_sigma s) Pw w u
               else Inr (dfs_G s, dfs_sigma s, Pw)) of
           Inl err \<Rightarrow> Inl err
         | Inr (G', sg', Pw') \<Rightarrow>
             (let s1 = s\<lparr> dfs_G := G', dfs_sigma := sg' \<rparr> in
              if pre s1 u < lowpt s1 w
              then Inr (s1\<lparr> lowpt := (lowpt s1)(w := pre s1 u) \<rparr>, Pw')
              else Inr (s1, Pw'))))"

text \<open>
  \<^verbatim>\<open>triedge_dfs\<close> is recursive and its loop runs over a list that grows while it runs, so
  the model counts calls and loop rounds down from a bound; \<open>None\<close> means the bound was
  reached. \<open>dfs_edges\<close> is the loop \<^verbatim>\<open>for(ewu=First_Inout_Edge(w,0); ewu!=nil; ewu=nxte)\<close>
  with the cursor \<open>ewu\<close>; the local path \<open>Pu\<close> of the call lives across its rounds.
  The parent \<open>v\<close> is \<open>None\<close> for \<^verbatim>\<open>NULL\<close>.
\<close>

fun triedge_dfs ::
      "nat \<Rightarrow> dfs_state \<Rightarrow> node \<Rightarrow> node option \<Rightarrow> path \<Rightarrow> (error + dfs_state \<times> path) option"
  and dfs_edges ::
      "nat \<Rightarrow> dfs_state \<Rightarrow> node \<Rightarrow> node option \<Rightarrow> edge option \<Rightarrow> path \<Rightarrow> path \<Rightarrow>
       (error + dfs_state \<times> path \<times> path) option" where
  "triedge_dfs 0 s w v Pw = None"
| "triedge_dfs (Suc n) s w v Pw =
     (let s1 = s\<lparr> pre := (pre s)(w := count2 s), count2 := count2 s + 1,
                  father := (father s)(w := v), lowpt := (lowpt s)(w := count2 s) \<rparr>
      in case dfs_edges n s1 w v (First_Inout_Edge (dfs_G s1) w) (w # Pw) [] of
           None \<Rightarrow> None
         | Some (Inl err) \<Rightarrow> Some (Inl err)
         | Some (Inr (s2, Pw2, Pu2)) \<Rightarrow> Some (Inr (s2, Pw2)))"
| "dfs_edges 0 s w v c Pw Pu = None"
| "dfs_edges (Suc n) s w v None Pw Pu = Some (Inr (s, Pw, Pu))"
| "dfs_edges (Suc n) s w v (Some ewu) Pw Pu =
     (let u = opposite (dfs_G s) w ewu;
          nxte = Succ_Inout_Edge (dfs_G s) ewu w
      in if is_hidden (dfs_G s) ewu then dfs_edges n s w v nxte Pw Pu
         else if v = Some u then dfs_edges n s w v nxte Pw Pu
         else if u = w then Some (Inr (s\<lparr> dfs_G := hide_edge (dfs_G s) ewu \<rparr>, Pw, Pu))
         else if degree (dfs_G s) u < 2 then dfs_edges n s w v nxte Pw Pu
         else if pre s u < 0 then
           (case triedge_dfs n s u (Some w) Pu of
              None \<Rightarrow> None
            | Some (Inl err) \<Rightarrow> Some (Inl err)
            | Some (Inr (s1, Pu1)) \<Rightarrow>
                (case tree_edge s1 w u ewu Pw Pu1 of
                   Inl err \<Rightarrow> Some (Inl err)
                 | Inr (s2, Pw2, Pu2) \<Rightarrow> dfs_edges n s2 w v nxte Pw2 Pu2))
         else
           (case back_edge s w u Pw of
              Inl err \<Rightarrow> Some (Inl err)
            | Inr (s1, Pw1) \<Rightarrow> dfs_edges n s1 w v nxte Pw1 Pu))"

text \<open>
  The state \<^verbatim>\<open>TRICONNECTED_COMPONENTS\<close> starts the search of a block \<open>H\<close> with:
  \<^verbatim>\<open>pre(H,-1)\<close>, \<^verbatim>\<open>lowpt(H,0)\<close>, \<^verbatim>\<open>father(H,NULL)\<close>, \<^verbatim>\<open>count2 = 0\<close> and
  \<^verbatim>\<open>sigma[n].push(n)\<close> for every node.
\<close>

definition init_state :: "graph \<Rightarrow> dfs_state" where
  "init_state H = \<lparr> dfs_G = H, dfs_sigma = (\<lambda>v. [v]), pre = (\<lambda>_. - 1), lowpt = (\<lambda>_. 0),
     father = (\<lambda>_. None), count2 = 0 \<rparr>"

section \<open>Reading a graph\<close>

text \<open>
  \<^verbatim>\<open>read_dim(G,in)\<close>. The stream is modelled by what \<^verbatim>\<open>in >> n; in >> s\<close> and the
  \<open>s\<close> rounds of \<^verbatim>\<open>in >> v >> w\<close> read: the two numbers of the first line and the pairs
  of the lines behind it. \<^verbatim>\<open>AA = new node[n+1]\<close> is an array of \<open>n + 1\<close> slots; the loop
  \<^verbatim>\<open>for (i=0; i<n; i++) AA[i] = G.new_node()\<close> sets the slots \<open>0..n-1\<close>, and the slot \<open>n\<close>
  stays unset. \<^verbatim>\<open>G.clear()\<close> removes all nodes and edges.

  The loop over the edge lines does not test the stream. When the stream has no further
  line, \<^verbatim>\<open>in >> v >> w\<close> leaves \<open>v\<close> and \<open>w\<close> as they are and \<^verbatim>\<open>new_edge\<close> is called
  with the values of the round before; \<open>read_edges\<close> carries them in \<open>vw\<close>, which is
  \<open>None\<close> as long as the two variables have never been set.
\<close>

definition clear :: "graph \<Rightarrow> graph" where
  "clear G = empty_graph\<lparr> undirected := undirected G \<rparr>"

fun new_nodes :: "nat \<Rightarrow> graph \<Rightarrow> graph \<times> node list" where
  "new_nodes 0 G = (G, [])"
| "new_nodes (Suc k) G =
     (let (G1, v) = new_node G (length (all_nodes G));
          (G2, vs) = new_nodes k G1
      in (G2, v # vs))"

definition array_read :: "node option list \<Rightarrow> int \<Rightarrow> error + node" where
  "array_read AA i =
     (if i < 0 \<or> int (length AA) \<le> i then Inl UndefinedRead
      else (case AA ! nat i of None \<Rightarrow> Inl UndefinedRead | Some x \<Rightarrow> Inr x))"

fun read_edges ::
  "nat \<Rightarrow> (int \<times> int) list \<Rightarrow> (int \<times> int) option \<Rightarrow> node option list \<Rightarrow> graph \<Rightarrow> error + graph" where
  "read_edges 0 ls vw AA G = Inr G"
| "read_edges (Suc k) ls vw AA G =
     (case (case ls of [] \<Rightarrow> vw | l # _ \<Rightarrow> Some l) of
        None \<Rightarrow> Inl UndefinedRead
      | Some (v, w) \<Rightarrow>
          (case array_read AA v of
             Inl err \<Rightarrow> Inl err
           | Inr a \<Rightarrow>
               (case array_read AA w of
                  Inl err \<Rightarrow> Inl err
                | Inr b \<Rightarrow> read_edges k (tl ls) (Some (v, w)) AA (new_edge G a b))))"

definition read_dim :: "graph \<Rightarrow> int \<Rightarrow> int \<Rightarrow> (int \<times> int) list \<Rightarrow> error + graph" where
  "read_dim G n s ls =
     (if n + 1 < 0 then Inl UndefinedRead
      else
        (let (G1, vs) = new_nodes (nat n) (clear G);
             AA = map Some vs @ [None]
         in read_edges (nat s) ls None AA G1))"

section \<open>Connectivity services\<close>

text \<open>
  \<^verbatim>\<open>COMPONENTS\<close>, \<^verbatim>\<open>BICONNECTED_COMPONENTS\<close> and \<^verbatim>\<open>Is_Biconnected\<close> are LEDA's; the
  program only calls them.

  Modelled from the spec: the connectivity services of section 4.2 (the LEDA routines
  are not part of the program). \<open>connected_components\<close> "labels each vertex with its
  connected-component index, ignoring hidden edges", \<open>biconnected_edge_components\<close>
  "labels each visible edge with its 2-vertex-connected-component (block) index". The
  models below compute these labellings from reachability over the visible edges; the
  labels are numbered in the order in which \<^verbatim>\<open>forall_nodes\<close> and \<^verbatim>\<open>forall_edges\<close> meet
  the components.
\<close>

definition links :: "graph \<Rightarrow> (node \<times> node) list" where
  "links G = concat (map (\<lambda>e. [(source G e, target G e), (target G e, source G e)])
                       (visible_edges G))"

definition links_avoiding :: "graph \<Rightarrow> node \<Rightarrow> (node \<times> node) list" where
  "links_avoiding G x = filter (\<lambda>l. fst l \<noteq> x \<and> snd l \<noteq> x) (links G)"

definition succs :: "(node \<times> node) list \<Rightarrow> node \<Rightarrow> node list" where
  "succs E a = map snd (filter (\<lambda>l. fst l = a) E)"

text \<open>The nodes that can be reached from \<open>a\<close> over the links \<open>E\<close>.\<close>

definition reach :: "(node \<times> node) list \<Rightarrow> node \<Rightarrow> node set" where
  "reach E a = (case rtrancl_while (\<lambda>_. True) (succs E) a of
                  Some (ws, Z) \<Rightarrow> Z
                | None \<Rightarrow> {})"

text \<open>
  Modelled from the spec: \<^verbatim>\<open>COMPONENTS(G, compnum)\<close> numbers the connected components
  from 0 and returns their number.
\<close>

fun label_components ::
  "(node \<times> node) list \<Rightarrow> node list \<Rightarrow> (node \<Rightarrow> int) \<Rightarrow> nat \<Rightarrow> (node \<Rightarrow> int) \<times> nat" where
  "label_components E [] lab c = (lab, c)"
| "label_components E (v # vs) lab c =
     (if 0 \<le> lab v then label_components E vs lab c
      else label_components E vs (\<lambda>x. if x \<in> reach E v then int c else lab x) (Suc c))"

definition COMPONENTS :: "graph \<Rightarrow> nat \<times> (node \<Rightarrow> int)" where
  "COMPONENTS G =
     (let (lab, c) = label_components (links G) (all_nodes G) (\<lambda>_. - 1) 0 in (c, lab))"

text \<open>
  Modelled from the spec: two edges lie in the same biconnected block when they are
  the same edge or no single node separates them: whichever node \<open>x\<close> is taken out of
  the graph, an end of the one (other than \<open>x\<close>) still reaches an end of the other.
\<close>

definition edge_ends :: "graph \<Rightarrow> edge \<Rightarrow> node list" where
  "edge_ends G e = [source G e, target G e]"

definition same_block :: "graph \<Rightarrow> edge \<Rightarrow> edge \<Rightarrow> bool" where
  "same_block G e1 e2 \<longleftrightarrow>
     e1 = e2 \<or>
     (\<forall>x \<in> set (all_nodes G).
        \<exists>a \<in> set (edge_ends G e1) - {x}. \<exists>b \<in> set (edge_ends G e2) - {x}.
          b \<in> reach (links_avoiding G x) a)"

definition block_rep :: "graph \<Rightarrow> edge \<Rightarrow> edge" where
  "block_rep G e = hd (filter (\<lambda>r. same_block G r e) (visible_edges G))"

definition block_reps :: "graph \<Rightarrow> edge list" where
  "block_reps G = remdups (map (block_rep G) (visible_edges G))"

definition index_of :: "'a list \<Rightarrow> 'a \<Rightarrow> nat" where
  "index_of xs x = length (takeWhile (\<lambda>y. y \<noteq> x) xs)"

definition isolated_nodes :: "graph \<Rightarrow> node list" where
  "isolated_nodes G = filter (\<lambda>v. \<forall>l \<in> set (links G). fst l = v \<longrightarrow> snd l = v) (all_nodes G)"

text \<open>
  Modelled from the spec: \<^verbatim>\<open>BICONNECTED_COMPONENTS(G, compnum)\<close> labels every visible
  edge that is not a self-loop with the number of its block and returns the number of
  blocks, an isolated node counting as one. A self-loop gets no label: its entry keeps
  the value \<open>-1\<close> the array was made with.
\<close>

definition BICONNECTED_COMPONENTS :: "graph \<Rightarrow> nat \<times> (edge \<Rightarrow> int)" where
  "BICONNECTED_COMPONENTS G =
     (length (block_reps G) + length (isolated_nodes G),
      (\<lambda>e. if e \<in> set (visible_edges G) \<and> source G e \<noteq> target G e
           then int (index_of (block_reps G) (block_rep G e)) else - 1))"

text \<open>
  Modelled from the spec: \<^verbatim>\<open>Is_Biconnected(G)\<close> holds when the graph is connected and
  has at most one block.
\<close>

definition Is_Biconnected :: "graph \<Rightarrow> bool" where
  "Is_Biconnected G \<longleftrightarrow> fst (COMPONENTS G) \<le> 1 \<and> fst (BICONNECTED_COMPONENTS G) \<le> 1"

text \<open>
  What the specification calls a bridge: an edge whose removal disconnects some pair of
  nodes that were connected while it was present. \<open>graph_ok\<close>: every edge is listed
  once, and a visible edge joins two different nodes of the graph.
\<close>

definition connected :: "graph \<Rightarrow> node \<Rightarrow> node \<Rightarrow> bool" where
  "connected G a b \<longleftrightarrow> (a, b) \<in> (set (links G))\<^sup>*"

definition is_bridge :: "graph \<Rightarrow> edge \<Rightarrow> bool" where
  "is_bridge G e \<longleftrightarrow> (\<exists>a b. connected G a b \<and> \<not> connected (hide_edge G e) a b)"

definition graph_ok :: "graph \<Rightarrow> bool" where
  "graph_ok G \<longleftrightarrow> distinct (all_edges G) \<and>
     (\<forall>e \<in> set (visible_edges G). source G e \<noteq> target G e \<and>
        source G e \<in> set (all_nodes G) \<and> target G e \<in> set (all_nodes G))"

section \<open>The splitter\<close>

text \<open>
  \<^verbatim>\<open>split_graph(G, components, bridges, sigma, deg1edges)\<close>. The array \<open>A\<close> counts the
  edges of every block; an edge without a label would index it at \<open>-1\<close>.
  \<^verbatim>\<open>bridges.push(e)\<close> puts the edge in front. The array \<open>sigma\<close> is the caller's fresh
  array; \<open>components\<close> is passed by value and not seen by the caller.
\<close>

definition block_size :: "graph \<Rightarrow> (edge \<Rightarrow> int) \<Rightarrow> int \<Rightarrow> nat" where
  "block_size G ecomp k = length (filter (\<lambda>e. ecomp e = k) (visible_edges G))"

fun collect_bridges :: "graph \<Rightarrow> (edge \<Rightarrow> int) \<Rightarrow> edge list \<Rightarrow> epath \<Rightarrow> epath" where
  "collect_bridges G ecomp [] bridges = bridges"
| "collect_bridges G ecomp (e # es) bridges =
     (if block_size G ecomp (ecomp e) \<le> 1 then collect_bridges G ecomp es (e # bridges)
      else collect_bridges G ecomp es bridges)"

fun hide_bridges :: "graph \<Rightarrow> epath \<Rightarrow> error + graph" where
  "hide_bridges G [] = Inr G"
| "hide_bridges G (e # es) =
     (if is_hidden G e then Inl HideHiddenEdge else hide_bridges (hide_edge G e) es)"

section \<open>Well-formed adjacency lists and example graphs\<close>


text \<open>The triangle on the nodes 0, 1, 2 with the edges 0: (0,1), 1: (1,2), 2: (2,0).\<close>

definition triangle :: graph where
  "triangle = \<lparr> all_nodes = [0, 1, 2], all_edges = [0, 1, 2],
     source = (\<lambda>_. 0)(0 := 0, 1 := 1, 2 := 2),
     target = (\<lambda>_. 0)(0 := 1, 1 := 2, 2 := 0),
     hidden = (\<lambda>_. False),
     adj_edges = (\<lambda>_. [])(0 := [0, 2], 1 := [1, 0], 2 := [2, 1]),
     in_edges = (\<lambda>_. []), undirected = True, node_inf = (\<lambda>v. v) \<rparr>"


text \<open>
  The complete graph on the nodes 0..3 with a self-loop at node 0 as its first edge:
  0: (0,0), 1: (0,1), 2: (0,2), 3: (0,3), 4: (1,2), 5: (1,3), 6: (2,3). The self-loop
  stands twice in the list of node 0, once for each end.
\<close>

definition K4_with_loop :: graph where
  "K4_with_loop = \<lparr> all_nodes = [0, 1, 2, 3], all_edges = [0, 1, 2, 3, 4, 5, 6],
     source = (\<lambda>_. 0)(0 := 0, 1 := 0, 2 := 0, 3 := 0, 4 := 1, 5 := 1, 6 := 2),
     target = (\<lambda>_. 0)(0 := 0, 1 := 1, 2 := 2, 3 := 3, 4 := 2, 5 := 3, 6 := 3),
     hidden = (\<lambda>_. False),
     adj_edges = (\<lambda>_. [])(0 := [0, 0, 1, 2, 3], 1 := [1, 4, 5], 2 := [2, 4, 6], 3 := [3, 5, 6]),
     in_edges = (\<lambda>_. []), undirected = True, node_inf = (\<lambda>v. v) \<rparr>"

text \<open>
  A loop-free graph without parallel edges and without a bridge: \<open>hub_input\<close> is the
  graph read from the edge lines (0,1), (0,6), (0,7), (1,2), (2,3), (3,1), (1,4), (4,5),
  (5,1), (1,6), (1,7). Node 1 lies on the triangles 1-2-3 and 1-4-5 and is joined to 0,
  6 and 7, which are joined to 0. The graph is one block, and \<open>hub_graph\<close> is the copy
  that \<^verbatim>\<open>CopyInducedGraph\<close> makes of it; node 0 is its first node of degree greater than
  2, the root of the search.
\<close>

definition hub_input :: graph where
  "hub_input = \<lparr> all_nodes = [0, 1, 2, 3, 4, 5, 6, 7],
     all_edges = [0, 1, 2, 3, 4, 5, 6, 7, 8, 9, 10],
     source = (\<lambda>_. 0)(0 := 0, 1 := 0, 2 := 0, 3 := 1, 4 := 2, 5 := 3, 6 := 1, 7 := 4, 8 := 5,
                       9 := 1, 10 := 1),
     target = (\<lambda>_. 0)(0 := 1, 1 := 6, 2 := 7, 3 := 2, 4 := 3, 5 := 1, 6 := 4, 7 := 5, 8 := 1,
                       9 := 6, 10 := 7),
     hidden = (\<lambda>_. False),
     adj_edges = (\<lambda>_. [])(0 := [0, 1, 2], 1 := [3, 6, 9, 10, 0, 5, 8], 2 := [4, 3],
                          3 := [5, 4], 4 := [7, 6], 5 := [8, 7], 6 := [1, 9], 7 := [2, 10]),
     in_edges = (\<lambda>_. []), undirected = True, node_inf = (\<lambda>v. v) \<rparr>"




text \<open>
  \<open>sigma_partition V sg\<close>: the lists \<open>sg v\<close> of the nodes \<open>v\<close> of \<open>V\<close>, taken together, hold
  every node of \<open>V\<close> exactly once. \<open>inv_graph V E G\<close>: the adjacency lists hold edges of
  \<open>E\<close> only and both ends of every edge of \<open>E\<close> are nodes of \<open>V\<close>.
\<close>

definition sigma_partition :: "node list \<Rightarrow> sigma \<Rightarrow> bool" where
  "sigma_partition V sg \<longleftrightarrow> mset (concat (map sg V)) = mset V"

definition inv_graph :: "node list \<Rightarrow> edge list \<Rightarrow> graph \<Rightarrow> bool" where
  "inv_graph V E G \<longleftrightarrow>
     (\<forall>v. set (adj_edges G v) \<subseteq> set E) \<and>
     (\<forall>e \<in> set E. source G e \<in> set V \<and> target G e \<in> set V)"

definition inv_state :: "node list \<Rightarrow> edge list \<Rightarrow> dfs_state \<Rightarrow> bool" where
  "inv_state V E s \<longleftrightarrow> inv_graph V E (dfs_G s) \<and> sigma_partition V (dfs_sigma s)"

definition block_ok :: "graph \<Rightarrow> bool" where
  "block_ok H \<longleftrightarrow> distinct (all_nodes H) \<and> inv_graph (all_nodes H) (all_edges H) H"

text \<open>Two nodes joined by three parallel edges.\<close>

definition three_parallel :: graph where
  "three_parallel = \<lparr> all_nodes = [0, 1], all_edges = [0, 1, 2],
     source = (\<lambda>_. 0), target = (\<lambda>_. 1), hidden = (\<lambda>_. False),
     adj_edges = (\<lambda>_. [])(0 := [0, 1, 2], 1 := [0, 1, 2]),
     in_edges = (\<lambda>_. []), undirected = True, node_inf = (\<lambda>v. v) \<rparr>"

section \<open>Properties of path absorption\<close>











lemma find_from_tail_absent: "v \<notin> set xs \<Longrightarrow> find_from_tail v xs behind = None"
  by (induction xs arbitrary: behind) auto

text \<open>
  Claim C8. \<^verbatim>\<open>AbsorbPath(G,sigma,cols,P,u,v)\<close> is called with the head of \<open>P\<close> as \<open>u\<close>.
  When \<open>v\<close> does not occur in \<open>P\<close> the walk from the tail ends at \<^verbatim>\<open>nil\<close> and the call
  returns with the graph, \<open>sigma\<close> and \<open>P\<close> as they were.
\<close>

theorem AbsorbPath_uv_target_absent:
  assumes "v \<notin> set P" and "P \<noteq> [] \<longrightarrow> hd P = u"
  shows "AbsorbPath_uv G sg P u v = Inr (G, sg, P)"
  using assms by (simp add: AbsorbPath_uv_def Let_def find_from_tail_absent)

theorem AbsorbPath_uv_target_absent_witness:
  "(3 :: node) \<notin> set [0, 1, 2] \<and> hd [0, 1, 2 :: node] = 0 \<and>
   AbsorbPath_uv triangle (\<lambda>v. [v]) [0, 1, 2] 0 3 = Inr (triangle, (\<lambda>v. [v]), [0, 1, 2])"
  using AbsorbPath_uv_target_absent[of 3 "[0, 1, 2]" 0 triangle "\<lambda>v. [v]"]
  by simp




section \<open>The partition kept in sigma\<close>

lemma conc_sigma_mset:
  "distinct V \<Longrightarrow> x0 \<noteq> xi \<Longrightarrow>
   mset (concat (map (conc_sigma sg x0 xi) V)) + (if xi \<in> set V then mset (sg xi) else {#}) =
   mset (concat (map sg V)) + (if x0 \<in> set V then mset (sg xi) else {#})"
  by (induction V) (auto simp: conc_sigma_def)

lemma sigma_partition_conc:
  "sigma_partition V sg \<Longrightarrow> distinct V \<Longrightarrow> x0 \<in> set V \<Longrightarrow> xi \<in> set V \<Longrightarrow> x0 \<noteq> xi \<Longrightarrow>
   sigma_partition V (conc_sigma sg x0 xi)"
  using conc_sigma_mset[of V x0 xi sg] by (simp add: sigma_partition_def)

lemma inv_graph_hide: "inv_graph V E G \<Longrightarrow> inv_graph V E (hide_edge G e)"
  by (simp add: inv_graph_def hide_edge_def)

lemma inv_graph_move:
  "inv_graph V E G \<Longrightarrow> e \<in> set E \<Longrightarrow> v \<in> set V \<Longrightarrow> w \<in> set V \<Longrightarrow>
   inv_graph V E (move_edge G e v w)"
  by (auto simp: inv_graph_def move_edge_def ins_adj_edge_def del_adj_edge_def Let_def)

lemma opposite_in: "inv_graph V E G \<Longrightarrow> e \<in> set E \<Longrightarrow> opposite G v e \<in> set V"
  by (simp add: inv_graph_def opposite_def)

lemma first_visible_in: "first_visible G es = Some e \<Longrightarrow> e \<in> set es"
  by (auto simp: first_visible_def split: list.splits dest!: filter_eq_ConsD)

lemma First_Inout_Edge_in: "inv_graph V E G \<Longrightarrow> First_Inout_Edge G v = Some e \<Longrightarrow> e \<in> set E"
  by (auto simp: First_Inout_Edge_def inv_graph_def dest: first_visible_in)

lemma first_adj_edge_in: "inv_graph V E G \<Longrightarrow> first_adj_edge G v = Some e \<Longrightarrow> e \<in> set E"
  by (auto simp: first_adj_edge_def inv_graph_def dest: first_visible_in)

lemma Succ_Inout_Edge_in: "inv_graph V E G \<Longrightarrow> Succ_Inout_Edge G c v = Some e \<Longrightarrow> e \<in> set E"
proof -
  assume g: "inv_graph V E G" and "Succ_Inout_Edge G c v = Some e"
  then have "e \<in> set (tl (dropWhile (\<lambda>x. x \<noteq> c) (adj_edges G v)))"
    by (auto simp: Succ_Inout_Edge_def dest: first_visible_in)
  then have "e \<in> set (dropWhile (\<lambda>x. x \<noteq> c) (adj_edges G v))"
    by (cases "dropWhile (\<lambda>x. x \<noteq> c) (adj_edges G v)") auto
  then have "e \<in> set (adj_edges G v)" by (rule set_dropWhileD)
  with g show ?thesis by (auto simp: inv_graph_def)
qed

lemma adj_visible_sub: "inv_graph V E G \<Longrightarrow> set (adj_visible G v) \<subseteq> set E"
  by (auto simp: adj_visible_def inv_graph_def)

lemma absorb_edges_inv:
  "absorb_edges G xi xm1 x0 es = Inr G' \<Longrightarrow> inv_graph V E G \<Longrightarrow> set es \<subseteq> set E \<Longrightarrow>
   x0 \<in> set V \<Longrightarrow> inv_graph V E G'"
proof (induction es arbitrary: G)
  case Nil
  then show ?case by simp
next
  case (Cons e es)
  then show ?case
    by (auto simp: Let_def inv_graph_hide inv_graph_move opposite_in split: if_splits)
qed

lemma absorb_edges_uv_inv:
  "absorb_edges_uv G xi xm1 x0 es = Inr G' \<Longrightarrow> inv_graph V E G \<Longrightarrow> set es \<subseteq> set E \<Longrightarrow>
   x0 \<in> set V \<Longrightarrow> inv_graph V E G'"
proof (induction es arbitrary: G)
  case Nil
  then show ?case by simp
next
  case (Cons e es)
  then show ?case
    by (auto simp: Let_def inv_graph_hide inv_graph_move opposite_in split: if_splits)
qed

lemma absorb_loop_inv:
  "absorb_loop G sg P x0 xm1 = Inr (G', sg', P') \<Longrightarrow> inv_graph V E G \<Longrightarrow>
   sigma_partition V sg \<Longrightarrow> distinct V \<Longrightarrow> set P \<subseteq> set V \<Longrightarrow> x0 \<in> set V \<Longrightarrow> xm1 \<in> set V \<Longrightarrow>
   inv_graph V E G' \<and> sigma_partition V sg' \<and> set P' \<subseteq> set V"
proof (induction G sg P x0 xm1 rule: absorb_loop.induct)
  case (1 G sg P x0 xm1)
  show ?case
  proof (cases "xm1 = x0")
    case True
    with "1.prems" show ?thesis by (subst (asm) absorb_loop.simps) auto
  next
    case False
    with "1.prems"(1) have ne: "P \<noteq> []"
      by (subst (asm) absorb_loop.simps) (auto split: if_splits)
    from "1.prems"(1) False ne obtain G1 where
      e: "absorb_edges G xm1 (last P) x0 (adj_visible G xm1) = Inr G1" and
      r: "absorb_loop G1 (conc_sigma sg x0 xm1) (butlast P) x0 (last P) = Inr (G', sg', P')"
      by (subst (asm) absorb_loop.simps) (auto simp: Let_def split: sum.splits)
    have g1: "inv_graph V E G1"
      using absorb_edges_inv[OF e "1.prems"(2) adj_visible_sub[OF "1.prems"(2)] "1.prems"(6)] .
    have sp: "sigma_partition V (conc_sigma sg x0 xm1)"
      using sigma_partition_conc "1.prems" False by auto
    have l: "last P \<in> set V" using ne "1.prems"(5) by (meson last_in_set subsetD)
    have b: "set (butlast P) \<subseteq> set V" using "1.prems"(5) by (auto dest: in_set_butlastD)
    show ?thesis
      using "1.IH"[OF False ne refl refl refl refl e r g1 sp "1.prems"(4) b "1.prems"(6) l] .
  qed
qed

lemma AbsorbPath_inv:
  assumes "AbsorbPath G sg P = Inr (G', sg', P')" "inv_graph V E G" "sigma_partition V sg"
    "distinct V" "set P \<subseteq> set V"
  shows "inv_graph V E G' \<and> sigma_partition V sg' \<and> set P' \<subseteq> set V"
proof (cases "P = [] \<or> butlast P = []")
  case True
  with assms show ?thesis by (auto simp: AbsorbPath_def Let_def split: if_splits)
next
  case False
  then have r: "absorb_loop G sg (butlast P) (hd P) (last P) = Inr (G', sg', P')"
    using assms(1) by (simp add: AbsorbPath_def Let_def)
  have "hd P \<in> set V" "last P \<in> set V" "set (butlast P) \<subseteq> set V"
    using False assms(5) by (auto dest: in_set_butlastD)
  then show ?thesis using absorb_loop_inv[OF r assms(2,3,4)] by blast
qed

lemma absorb_uv_loop_inv:
  "absorb_uv_loop G sg u x0 front xm1 behind = Inr (G', sg', P') \<Longrightarrow> inv_graph V E G \<Longrightarrow>
   sigma_partition V sg \<Longrightarrow> distinct V \<Longrightarrow> set front \<subseteq> set V \<Longrightarrow> set behind \<subseteq> set V \<Longrightarrow>
   x0 \<in> set V \<Longrightarrow> xm1 \<in> set V \<Longrightarrow> u = x0 \<Longrightarrow>
   inv_graph V E G' \<and> sigma_partition V sg' \<and> set P' \<subseteq> set V"
proof (induction front arbitrary: G sg xm1)
  case Nil
  then show ?case by auto
next
  case (Cons y front)
  show ?case
  proof (cases "xm1 = u")
    case True
    with Cons.prems show ?thesis by auto
  next
    case False
    with Cons.prems(1) obtain G1 where
      e: "absorb_edges_uv G xm1 y x0 (adj_visible G xm1) = Inr G1" and
      r: "absorb_uv_loop G1 (conc_sigma sg x0 xm1) u x0 front y behind = Inr (G', sg', P')"
      by (auto simp: Let_def split: sum.splits)
    have g1: "inv_graph V E G1"
      using absorb_edges_uv_inv[OF e Cons.prems(2) adj_visible_sub[OF Cons.prems(2)] Cons.prems(7)] .
    have sp: "sigma_partition V (conc_sigma sg x0 xm1)"
      using sigma_partition_conc Cons.prems False by auto
    show ?thesis
      using Cons.IH[OF r g1 sp Cons.prems(4) _ Cons.prems(6,7) _ Cons.prems(9)] Cons.prems(5)
      by auto
  qed
qed

lemma find_from_tail_sets:
  "find_from_tail v xs behind = Some (front, x, behind') \<Longrightarrow>
   set front \<subseteq> set xs \<and> x \<in> set xs \<and> set behind' \<subseteq> set xs \<union> set behind"
proof (induction xs arbitrary: behind)
  case Nil
  then show ?case by simp
next
  case (Cons a xs)
  show ?case
  proof (cases "a = v")
    case True
    with Cons.prems show ?thesis by auto
  next
    case False
    with Cons.prems have "find_from_tail v xs (a # behind) = Some (front, x, behind')" by simp
    from Cons.IH[OF this] show ?thesis by auto
  qed
qed

lemma AbsorbPath_uv_inv:
  assumes "AbsorbPath_uv G sg P u v = Inr (G', sg', P')" "inv_graph V E G" "sigma_partition V sg"
    "distinct V" "set P \<subseteq> set V"
  shows "inv_graph V E G' \<and> sigma_partition V sg' \<and> set P' \<subseteq> set V"
proof (cases "find_from_tail v (rev P) []")
  case None
  with assms show ?thesis by (auto simp: AbsorbPath_uv_def Let_def split: if_splits)
next
  case (Some t)
  obtain front x behind where t: "t = (front, x, behind)" by (cases t)
  from Some assms(1) t have P: "P \<noteq> []" "hd P = u" and
    r: "absorb_uv_loop G sg u (hd P) front x behind = Inr (G', sg', P')"
    by (auto simp: AbsorbPath_uv_def Let_def split: if_splits)
  from find_from_tail_sets[OF Some[unfolded t]] assms(5)
  have "set front \<subseteq> set V" "x \<in> set V" "set behind \<subseteq> set V" by auto
  moreover have "hd P \<in> set V" using P assms(5) by auto
  ultimately show ?thesis
    using absorb_uv_loop_inv[OF r assms(2,3,4)] P by blast
qed


lemma contract_deg2_inv:
  assumes "contract_deg2 s w u ewu Pu = Inr (s', Pu')" "inv_state V E s" "w \<in> set V"
    "set Pu \<subseteq> set V"
  shows "inv_state V E s' \<and> set Pu' \<subseteq> set V"
proof (cases "degree (dfs_G s) u = 2")
  case False
  with assms show ?thesis by (simp add: contract_deg2_def)
next
  case True
  let ?G1 = "hide_edge (dfs_G s) ewu"
  have g1: "inv_graph V E ?G1" using assms(2) by (simp add: inv_state_def inv_graph_hide)
  from assms(1) True obtain euz x where
    f: "first_adj_edge ?G1 u = Some euz" and
    s': "s' = s\<lparr> dfs_G := move_edge ?G1 euz w (opposite ?G1 u euz) \<rparr>" and
    Pu: "Pu = x # Pu'"
    by (auto simp: contract_deg2_def Let_def split: option.splits if_splits list.splits)
  have "euz \<in> set E" using first_adj_edge_in[OF g1 f] .
  then have "inv_graph V E (move_edge ?G1 euz w (opposite ?G1 u euz))"
    using g1 assms(3) by (simp add: inv_graph_move opposite_in)
  then show ?thesis using s' Pu assms(2,4) by (simp add: inv_state_def)
qed

lemma absorb_or_extend_inv:
  assumes "absorb_or_extend s w u Pw Pu = Inr (s', Pw', Pu')" "inv_state V E s" "distinct V"
    "w \<in> set V" "set Pw \<subseteq> set V" "set Pu \<subseteq> set V"
  shows "inv_state V E s' \<and> set Pw' \<subseteq> set V \<and> set Pu' \<subseteq> set V"
proof (cases "lowpt s w \<le> lowpt s u")
  case True
  with assms(1) obtain G' sg' where
    a: "AbsorbPath (dfs_G s) (dfs_sigma s) (w # Pu) = Inr (G', sg', Pu')" and
    s': "s' = s\<lparr> dfs_G := G', dfs_sigma := sg' \<rparr>" "Pw' = Pw"
    by (auto simp: absorb_or_extend_def split: sum.splits if_splits)
  from AbsorbPath_inv[OF a, of V E] assms show ?thesis
    by (auto simp: inv_state_def s')
next
  case False
  with assms(1) obtain G' sg' P' where
    a: "AbsorbPath (dfs_G s) (dfs_sigma s) Pw = Inr (G', sg', P')" and
    s': "s' = s\<lparr> lowpt := (lowpt s)(w := lowpt s u), dfs_G := G', dfs_sigma := sg' \<rparr>"
      "Pw' = w # (P' @ Pu)" "Pu' = []"
    by (auto simp: absorb_or_extend_def Let_def split: sum.splits if_splits)
  from AbsorbPath_inv[OF a, of V E] assms show ?thesis
    by (auto simp: inv_state_def s')
qed

lemma tree_edge_inv:
  assumes "tree_edge s w u ewu Pw Pu = Inr (s', Pw', Pu')" "inv_state V E s" "distinct V"
    "w \<in> set V" "set Pw \<subseteq> set V" "set Pu \<subseteq> set V"
  shows "inv_state V E s' \<and> set Pw' \<subseteq> set V \<and> set Pu' \<subseteq> set V"
proof -
  from assms(1) obtain s1 Pu1 where
    c: "contract_deg2 s w u ewu Pu = Inr (s1, Pu1)" and
    a: "absorb_or_extend s1 w u Pw Pu1 = Inr (s', Pw', Pu')"
    by (auto simp: tree_edge_def split: sum.splits)
  from contract_deg2_inv[OF c assms(2,4,6)] absorb_or_extend_inv[OF a _ assms(3,4,5)]
  show ?thesis by blast
qed

lemma back_edge_inv:
  assumes "back_edge s w u Pw = Inr (s', Pw')" "inv_state V E s" "distinct V"
    "w \<in> set V" "set Pw \<subseteq> set V"
  shows "inv_state V E s' \<and> set Pw' \<subseteq> set V"
proof (cases "pre s u < pre s w")
  case True
  show ?thesis
  proof (cases "pre s u < lowpt s w")
    case True
    with \<open>pre s u < pre s w\<close> assms(1) obtain G' sg' P' where
      a: "AbsorbPath (dfs_G s) (dfs_sigma s) Pw = Inr (G', sg', P')" and
      s': "s' = s\<lparr> dfs_G := G', dfs_sigma := sg', lowpt := (lowpt s)(w := pre s u) \<rparr>" "Pw' = [w]"
      by (auto simp: back_edge_def split: sum.splits)
    from AbsorbPath_inv[OF a, of V E] assms show ?thesis
      by (auto simp: inv_state_def s')
  next
    case False
    with \<open>pre s u < pre s w\<close> assms show ?thesis by (auto simp: back_edge_def)
  qed
next
  case False
  show ?thesis
  proof (cases "pre s u > pre s w")
    case True
    with False assms(1) obtain G' sg' where
      a: "AbsorbPath_uv (dfs_G s) (dfs_sigma s) Pw w u = Inr (G', sg', Pw')" and
      s': "dfs_G s' = G'" "dfs_sigma s' = sg'"
      by (auto simp: back_edge_def Let_def split: sum.splits if_splits)
    from AbsorbPath_uv_inv[OF a, of V E] assms show ?thesis
      by (auto simp: inv_state_def s')
  next
    case n: False
    with False assms show ?thesis
      by (auto simp: back_edge_def Let_def inv_state_def split: if_splits)
  qed
qed

lemma dfs_inv_aux:
  assumes V: "distinct V"
  shows "(\<forall>s w v Pw s' Pw'. triedge_dfs n s w v Pw = Some (Inr (s', Pw')) \<longrightarrow>
            inv_state V E s \<longrightarrow> w \<in> set V \<longrightarrow> set Pw \<subseteq> set V \<longrightarrow>
            inv_state V E s' \<and> set Pw' \<subseteq> set V) \<and>
         (\<forall>s w v c Pw Pu s' Pw' Pu'. dfs_edges n s w v c Pw Pu = Some (Inr (s', Pw', Pu')) \<longrightarrow>
            inv_state V E s \<longrightarrow> w \<in> set V \<longrightarrow> (\<forall>e. c = Some e \<longrightarrow> e \<in> set E) \<longrightarrow>
            set Pw \<subseteq> set V \<longrightarrow> set Pu \<subseteq> set V \<longrightarrow>
            inv_state V E s' \<and> set Pw' \<subseteq> set V \<and> set Pu' \<subseteq> set V)"
proof (induction n)
  case 0
  show ?case by simp
next
  case (Suc n)
  note IH1 = Suc.IH[THEN conjunct1, rule_format]
  note IH2 = Suc.IH[THEN conjunct2, rule_format]
  show ?case
  proof (intro conjI allI impI)
    fix s w v Pw s' Pw'
    assume r: "triedge_dfs (Suc n) s w v Pw = Some (Inr (s', Pw'))"
      and i: "inv_state V E s" and w: "w \<in> set V" and P: "set Pw \<subseteq> set V"
    let ?s1 = "s\<lparr> pre := (pre s)(w := count2 s), count2 := count2 s + 1,
                  father := (father s)(w := v), lowpt := (lowpt s)(w := count2 s) \<rparr>"
    from r obtain Pu2 where
      d: "dfs_edges n ?s1 w v (First_Inout_Edge (dfs_G ?s1) w) (w # Pw) [] = Some (Inr (s', Pw', Pu2))"
      by (auto simp: Let_def split: option.splits sum.splits)
    have i1: "inv_state V E ?s1" using i by (simp add: inv_state_def)
    have c: "\<And>e. First_Inout_Edge (dfs_G ?s1) w = Some e \<Longrightarrow> e \<in> set E"
      using i by (auto simp: inv_state_def dest: First_Inout_Edge_in)
    from IH2[OF d i1 w c] w P
    show "inv_state V E s'" "set Pw' \<subseteq> set V" by auto
  next
    fix s w v c Pw Pu s' Pw' Pu'
    assume r: "dfs_edges (Suc n) s w v c Pw Pu = Some (Inr (s', Pw', Pu'))"
      and i: "inv_state V E s" and w: "w \<in> set V" and c: "\<forall>e. c = Some e \<longrightarrow> e \<in> set E"
      and P: "set Pw \<subseteq> set V" "set Pu \<subseteq> set V"
    have "inv_state V E s' \<and> set Pw' \<subseteq> set V \<and> set Pu' \<subseteq> set V"
    proof (cases c)
      case None
      with r i P show ?thesis by simp
    next
      case (Some ewu)
      define u where "u = opposite (dfs_G s) w ewu"
      define nxte where "nxte = Succ_Inout_Edge (dfs_G s) ewu w"
      have g: "inv_graph V E (dfs_G s)" using i by (simp add: inv_state_def)
      have e: "ewu \<in> set E" using c Some by simp
      have u: "u \<in> set V" using opposite_in[OF g e] by (simp add: u_def)
      have nx: "\<And>e. nxte = Some e \<Longrightarrow> e \<in> set E"
        using Succ_Inout_Edge_in[OF g] by (simp add: nxte_def)
      note skip = IH2[OF _ i w nx P]
      consider (hid) "is_hidden (dfs_G s) ewu"
        | (par) "\<not> is_hidden (dfs_G s) ewu" "v = Some u"
        | (loop) "\<not> is_hidden (dfs_G s) ewu" "v \<noteq> Some u" "u = w"
        | (low) "\<not> is_hidden (dfs_G s) ewu" "v \<noteq> Some u" "u \<noteq> w" "degree (dfs_G s) u < 2"
        | (tree) "\<not> is_hidden (dfs_G s) ewu" "v \<noteq> Some u" "u \<noteq> w" "\<not> degree (dfs_G s) u < 2"
            "pre s u < 0"
        | (bck) "\<not> is_hidden (dfs_G s) ewu" "v \<noteq> Some u" "u \<noteq> w" "\<not> degree (dfs_G s) u < 2"
            "\<not> pre s u < 0"
        by blast
      then show ?thesis
      proof cases
        case hid
        with r Some have "dfs_edges n s w v nxte Pw Pu = Some (Inr (s', Pw', Pu'))"
          by (simp add: Let_def nxte_def)
        from skip[OF this] show ?thesis by blast
      next
        case par
        with r Some have "dfs_edges n s w v nxte Pw Pu = Some (Inr (s', Pw', Pu'))"
          by (simp add: Let_def nxte_def u_def)
        from skip[OF this] show ?thesis by blast
      next
        case loop
        with r Some have "s' = s\<lparr> dfs_G := hide_edge (dfs_G s) ewu \<rparr>" "Pw' = Pw" "Pu' = Pu"
          by (simp_all add: Let_def u_def)
        then show ?thesis using i P by (simp add: inv_state_def inv_graph_hide)
      next
        case low
        with r Some have "dfs_edges n s w v nxte Pw Pu = Some (Inr (s', Pw', Pu'))"
          by (simp add: Let_def nxte_def u_def)
        from skip[OF this] show ?thesis by blast
      next
        case tree
        with r Some obtain s1 Pu1 s2 Pw2 Pu2 where
          t: "triedge_dfs n s u (Some w) Pu = Some (Inr (s1, Pu1))" and
          te: "tree_edge s1 w u ewu Pw Pu1 = Inr (s2, Pw2, Pu2)" and
          d: "dfs_edges n s2 w v nxte Pw2 Pu2 = Some (Inr (s', Pw', Pu'))"
          by (auto simp: Let_def nxte_def u_def split: option.splits sum.splits)
        from IH1[OF t i u P(2)] have i1: "inv_state V E s1" "set Pu1 \<subseteq> set V" by auto
        from tree_edge_inv[OF te i1(1) V w P(1) i1(2)]
        have i2: "inv_state V E s2" "set Pw2 \<subseteq> set V" "set Pu2 \<subseteq> set V" by auto
        from IH2[OF d i2(1) w nx i2(2,3)] show ?thesis by blast
      next
        case bck
        with r Some obtain s1 Pw1 where
          b: "back_edge s w u Pw = Inr (s1, Pw1)" and
          d: "dfs_edges n s1 w v nxte Pw1 Pu = Some (Inr (s', Pw', Pu'))"
          by (auto simp: Let_def nxte_def u_def split: option.splits sum.splits)
        from back_edge_inv[OF b i V w P(1)] have i1: "inv_state V E s1" "set Pw1 \<subseteq> set V" by auto
        from IH2[OF d i1(1) w nx i1(2) P(2)] show ?thesis by blast
      qed
    qed
    then show "inv_state V E s'" "set Pw' \<subseteq> set V" "set Pu' \<subseteq> set V" by auto
  qed
qed


lemma distinct_concat_disjoint:
  "distinct (concat (map sg V)) \<Longrightarrow> distinct V \<Longrightarrow> x \<in> set V \<Longrightarrow> y \<in> set V \<Longrightarrow> x \<noteq> y \<Longrightarrow>
   set (sg x) \<inter> set (sg y) = {}"
  by (induction V) auto

lemma sigma_partition_sets:
  assumes "sigma_partition V sg" "distinct V"
  shows "(\<forall>x \<in> set V. \<forall>y \<in> set V. x \<noteq> y \<longrightarrow> set (sg x) \<inter> set (sg y) = {}) \<and>
         (\<Union>x \<in> set V. set (sg x)) = set V"
proof -
  have m: "mset (concat (map sg V)) = mset V" using assms(1) by (simp add: sigma_partition_def)
  then have d: "distinct (concat (map sg V))"
    using assms(2) by (metis mset_eq_imp_distinct_iff)
  have "set (concat (map sg V)) = set V" using m by (rule mset_eq_setD)
  then have "(\<Union>x \<in> set V. set (sg x)) = set V" by simp
  with distinct_concat_disjoint[OF d assms(2)] show ?thesis by blast
qed

lemma sigma_partition_init: "sigma_partition V (dfs_sigma (init_state H))"
  by (induction V) (auto simp: sigma_partition_def init_state_def)

text \<open>
  Claim C9. The search of a block starts with \<open>sigma v = [v]\<close>, a partition of the nodes
  of the block. Both forms of \<^verbatim>\<open>AbsorbPath\<close> keep the partition (they move the whole list
  of an absorbed node to the head of the path and empty it), and so does the search:
  whenever \<^verbatim>\<open>triedge_dfs\<close> returns, every node of the block stands in exactly one list,
  the lists are pairwise disjoint and their union is the node set of the block.
\<close>

theorem sigma_partitions_block:
  assumes "block_ok H" and "r \<in> set (all_nodes H)"
  shows "sigma_partition (all_nodes H) (dfs_sigma (init_state H)) \<and>
    (\<forall>G sg P G' sg' P'. inv_graph (all_nodes H) (all_edges H) G \<longrightarrow>
       sigma_partition (all_nodes H) sg \<longrightarrow> set P \<subseteq> set (all_nodes H) \<longrightarrow>
       AbsorbPath G sg P = Inr (G', sg', P') \<longrightarrow> sigma_partition (all_nodes H) sg') \<and>
    (\<forall>G sg P u v G' sg' P'. inv_graph (all_nodes H) (all_edges H) G \<longrightarrow>
       sigma_partition (all_nodes H) sg \<longrightarrow> set P \<subseteq> set (all_nodes H) \<longrightarrow>
       AbsorbPath_uv G sg P u v = Inr (G', sg', P') \<longrightarrow> sigma_partition (all_nodes H) sg') \<and>
    (\<forall>n s P. triedge_dfs n (init_state H) r None [] = Some (Inr (s, P)) \<longrightarrow>
       sigma_partition (all_nodes H) (dfs_sigma s) \<and>
       (\<forall>x \<in> set (all_nodes H). \<forall>y \<in> set (all_nodes H). x \<noteq> y \<longrightarrow>
          set (dfs_sigma s x) \<inter> set (dfs_sigma s y) = {}) \<and>
       (\<Union>x \<in> set (all_nodes H). set (dfs_sigma s x)) = set (all_nodes H))"
proof (intro conjI allI impI)
  show "sigma_partition (all_nodes H) (dfs_sigma (init_state H))" by (rule sigma_partition_init)
next
  fix G sg P G' sg' P'
  assume "inv_graph (all_nodes H) (all_edges H) G" "sigma_partition (all_nodes H) sg"
    "set P \<subseteq> set (all_nodes H)" "AbsorbPath G sg P = Inr (G', sg', P')"
  then show "sigma_partition (all_nodes H) sg'"
    using AbsorbPath_inv[of G sg P G' sg' P' "all_nodes H" "all_edges H"] assms(1)
    by (simp add: block_ok_def)
next
  fix G sg P u v G' sg' P'
  assume "inv_graph (all_nodes H) (all_edges H) G" "sigma_partition (all_nodes H) sg"
    "set P \<subseteq> set (all_nodes H)" "AbsorbPath_uv G sg P u v = Inr (G', sg', P')"
  then show "sigma_partition (all_nodes H) sg'"
    using AbsorbPath_uv_inv[of G sg P u v G' sg' P' "all_nodes H" "all_edges H"] assms(1)
    by (simp add: block_ok_def)
next
  fix n s P
  assume r: "triedge_dfs n (init_state H) r None [] = Some (Inr (s, P))"
  have d: "distinct (all_nodes H)" using assms(1) by (simp add: block_ok_def)
  have "inv_state (all_nodes H) (all_edges H) (init_state H)"
    using assms(1) sigma_partition_init[of "all_nodes H" H]
    by (simp add: inv_state_def block_ok_def) (simp add: init_state_def)
  from dfs_inv_aux[OF d, of n "all_edges H", THEN conjunct1, rule_format, OF r this assms(2)]
  have sp: "sigma_partition (all_nodes H) (dfs_sigma s)" by (simp add: inv_state_def)
  then show "sigma_partition (all_nodes H) (dfs_sigma s)" .
  from sigma_partition_sets[OF sp d]
  show "\<forall>x \<in> set (all_nodes H). \<forall>y \<in> set (all_nodes H). x \<noteq> y \<longrightarrow>
          set (dfs_sigma s x) \<inter> set (dfs_sigma s y) = {}"
    and "(\<Union>x \<in> set (all_nodes H). set (dfs_sigma s x)) = set (all_nodes H)" by blast+
qed

lemma three_parallel_run:
  "\<exists>s. triedge_dfs 12 (init_state three_parallel) 0 None [] = Some (Inr (s, [0])) \<and>
     dfs_sigma s 0 = [0, 1] \<and> dfs_sigma s 1 = []"
  by (simp add: eval_nat_numeral Let_def init_state_def three_parallel_def tree_edge_def back_edge_def
     contract_deg2_def absorb_or_extend_def AbsorbPath_def AbsorbPath_uv_def absorb_loop.simps conc_sigma_def
     First_Inout_Edge_def first_adj_edge_def Succ_Inout_Edge_def first_visible_def is_hidden_def opposite_def
     degree_def adj_visible_def hide_edge_def move_edge_def ins_adj_edge_def del_adj_edge_def)

lemma block_ok_three_parallel: "block_ok three_parallel"
  by (auto simp: block_ok_def inv_graph_def three_parallel_def)

theorem sigma_partitions_block_witness:
  "block_ok three_parallel \<and> 0 \<in> set (all_nodes three_parallel) \<and>
   (\<exists>s. triedge_dfs 12 (init_state three_parallel) 0 None [] = Some (Inr (s, [0])) \<and>
      dfs_sigma s 0 = [0, 1] \<and> dfs_sigma s 1 = [] \<and>
      sigma_partition (all_nodes three_parallel) (dfs_sigma s))"
proof -
  have r: "0 \<in> set (all_nodes three_parallel)" by (simp add: three_parallel_def)
  from three_parallel_run obtain s where
    s: "triedge_dfs 12 (init_state three_parallel) 0 None [] = Some (Inr (s, [0]))"
       "dfs_sigma s 0 = [0, 1]" "dfs_sigma s 1 = []" by blast
  from sigma_partitions_block[OF block_ok_three_parallel r] s(1)
  have "sigma_partition (all_nodes three_parallel) (dfs_sigma s)" by blast
  with s r block_ok_three_parallel show ?thesis by blast
qed

section \<open>The graph read by read_dim\<close>

lemma new_edge_facts:
  "all_nodes (new_edge G a b) = all_nodes G"
  "all_edges (new_edge G a b) = all_edges G @ [length (all_edges G)]"
  "source (new_edge G a b) = (source G)(length (all_edges G) := a)"
  "target (new_edge G a b) = (target G)(length (all_edges G) := b)"
  "hidden (new_edge G a b) = (hidden G)(length (all_edges G) := False)"
  by (simp_all add: new_edge_def ins_adj_edge_def Let_def)

lemma new_nodes_facts:
  "all_nodes G = [0..<m] \<Longrightarrow> new_nodes k G = (G', vs) \<Longrightarrow>
   vs = [m..<m + k] \<and> all_nodes G' = [0..<m + k] \<and> all_edges G' = all_edges G"
proof (induction k arbitrary: G m G' vs)
  case 0
  then show ?case by simp
next
  case (Suc k)
  let ?G1 = "fst (new_node G (length (all_nodes G)))"
  obtain G2 vs2 where r: "new_nodes k ?G1 = (G2, vs2)" by (cases "new_nodes k ?G1")
  have a: "all_nodes ?G1 = [0..<Suc m]" using Suc.prems(1) by (simp add: new_node_def Let_def)
  from Suc.IH[OF a r] have "vs2 = [Suc m..<Suc m + k]" "all_nodes G2 = [0..<Suc m + k]"
    "all_edges G2 = all_edges ?G1" by auto
  moreover have "G' = G2" "vs = m # vs2"
    using Suc.prems r by (auto simp: new_node_def Let_def split: prod.splits)
  ultimately show ?case by (simp add: new_node_def Let_def upt_rec[of m])
qed

lemma array_read_ok:
  "0 \<le> v \<Longrightarrow> v < int N \<Longrightarrow> array_read (map Some [0..<N] @ [None]) v = Inr (nat v)"
  by (simp add: array_read_def nth_append)

lemma read_edges_ok:
  "\<forall>(v, w) \<in> set ls. 0 \<le> v \<and> v < int N \<and> 0 \<le> w \<and> w < int N \<Longrightarrow>
   all_edges G = [0..<m] \<Longrightarrow>
   \<exists>G'. read_edges (length ls) ls vw (map Some [0..<N] @ [None]) G = Inr G' \<and>
     all_nodes G' = all_nodes G \<and> all_edges G' = [0..<m + length ls] \<and>
     (\<forall>i < length ls. source G' (m + i) = nat (fst (ls ! i)) \<and>
        target G' (m + i) = nat (snd (ls ! i)) \<and> \<not> hidden G' (m + i)) \<and>
     (\<forall>e < m. source G' e = source G e \<and> target G' e = target G e \<and> hidden G' e = hidden G e)"
proof (induction ls arbitrary: G m vw)
  case Nil
  then show ?case by simp
next
  case (Cons l ls)
  obtain v w where l: "l = (v, w)" by (cases l)
  let ?G1 = "new_edge G (nat v) (nat w)"
  have vw: "0 \<le> v" "v < int N" "0 \<le> w" "w < int N" using Cons.prems(1) l by auto
  have e1: "all_edges ?G1 = [0..<Suc m]" using Cons.prems(2) by (simp add: new_edge_facts)
  from Cons.IH[OF _ e1, of "Some (v, w)"] Cons.prems(1) obtain G' where
    r: "read_edges (length ls) ls (Some (v, w)) (map Some [0..<N] @ [None]) ?G1 = Inr G'" and
    n: "all_nodes G' = all_nodes ?G1" and e: "all_edges G' = [0..<Suc m + length ls]" and
    new: "\<forall>i < length ls. source G' (Suc m + i) = nat (fst (ls ! i)) \<and>
        target G' (Suc m + i) = nat (snd (ls ! i)) \<and> \<not> hidden G' (Suc m + i)" and
    old: "\<forall>e < Suc m. source G' e = source ?G1 e \<and> target G' e = target ?G1 e \<and>
        hidden G' e = hidden ?G1 e"
    by auto
  have m: "length (all_edges G) = m" using Cons.prems(2) by simp
  have "read_edges (length (l # ls)) (l # ls) vw (map Some [0..<N] @ [None]) G = Inr G'"
    using r vw by (simp add: l array_read_ok)
  moreover have "all_nodes G' = all_nodes G" using n by (simp add: new_edge_facts)
  moreover have "all_edges G' = [0..<m + length (l # ls)]" using e by simp
  moreover have "\<forall>i < length (l # ls). source G' (m + i) = nat (fst ((l # ls) ! i)) \<and>
        target G' (m + i) = nat (snd ((l # ls) ! i)) \<and> \<not> hidden G' (m + i)"
  proof (intro allI impI)
    fix i assume i: "i < length (l # ls)"
    show "source G' (m + i) = nat (fst ((l # ls) ! i)) \<and>
        target G' (m + i) = nat (snd ((l # ls) ! i)) \<and> \<not> hidden G' (m + i)"
    proof (cases i)
      case 0
      with old[rule_format, of m] show ?thesis by (simp add: new_edge_facts m l)
    next
      case (Suc j)
      with new[rule_format, of j] i show ?thesis by simp
    qed
  qed
  moreover have "\<forall>e < m. source G' e = source G e \<and> target G' e = target G e \<and>
      hidden G' e = hidden G e"
    using old by (simp add: new_edge_facts m)
  ultimately show ?case by blast
qed

text \<open>
  Claim C3, as the code has it. The numbers of a line index the array \<open>AA\<close> from 0: for
  \<open>n \<ge> 0\<close> and \<open>s\<close> lines with \<open>0 \<le> v, w < n\<close>, \<^verbatim>\<open>read_dim\<close> returns a graph with the
  nodes \<open>0..n-1\<close> and, for the \<open>i\<close>-th line \<open>v w\<close>, the edge \<open>i\<close> from node \<open>v\<close> to node
  \<open>w\<close> (\<^verbatim>\<open>write_dim\<close> writes the same numbers, the node ids).
\<close>

theorem read_dim_zero_based:
  assumes "0 \<le> n" and "s = int (length ls)"
    and "\<forall>(v, w) \<in> set ls. 0 \<le> v \<and> v < n \<and> 0 \<le> w \<and> w < n"
  shows "\<exists>G'. read_dim G n s ls = Inr G' \<and>
     all_nodes G' = [0..<nat n] \<and> all_edges G' = [0..<length ls] \<and>
     (\<forall>i < length ls. source G' i = nat (fst (ls ! i)) \<and>
        target G' i = nat (snd (ls ! i)) \<and> \<not> hidden G' i)"
proof -
  obtain G1 vs where nn: "new_nodes (nat n) (clear G) = (G1, vs)"
    by (cases "new_nodes (nat n) (clear G)")
  have "all_nodes (clear G) = [0..<0]" by (simp add: clear_def empty_graph_def)
  from new_nodes_facts[OF this nn]
  have f: "vs = [0..<nat n]" "all_nodes G1 = [0..<nat n]" "all_edges G1 = [0..<0]"
    by (simp_all add: clear_def empty_graph_def)
  have b: "\<forall>(v, w) \<in> set ls. 0 \<le> v \<and> v < int (nat n) \<and> 0 \<le> w \<and> w < int (nat n)"
    using assms(1,3) by auto
  from read_edges_ok[OF b f(3), of None] obtain G' where
    "read_edges (length ls) ls None (map Some [0..<nat n] @ [None]) G1 = Inr G'"
    "all_nodes G' = all_nodes G1" "all_edges G' = [0..<length ls]"
    "\<forall>i < length ls. source G' i = nat (fst (ls ! i)) \<and>
        target G' i = nat (snd (ls ! i)) \<and> \<not> hidden G' i"
    by auto
  then show ?thesis using assms(1,2) nn f by (simp add: read_dim_def)
qed

text \<open>
  With the nodes numbered \<open>1..N\<close> the claim fails: a line that names node \<open>N\<close> reads the
  slot \<open>AA[N]\<close>, which no round of the loop has set.
\<close>

theorem read_dim_one_based_counterexample:
  "read_dim empty_graph 2 1 [(1, 2)] = Inl UndefinedRead"
proof -
  obtain G1 vs where nn: "new_nodes (nat 2) (clear empty_graph) = (G1, vs)"
    by (cases "new_nodes (nat 2) (clear empty_graph)")
  have "all_nodes (clear empty_graph) = [0..<0]" by (simp add: clear_def empty_graph_def)
  from new_nodes_facts[OF this nn] have vs: "vs = [0, Suc 0]"
    by (simp add: upt_conv_Cons)
  have "array_read (map Some vs @ [None]) 1 = Inr (Suc 0)"
    "array_read (map Some vs @ [None]) 2 = Inl UndefinedRead"
    by (simp_all add: vs array_read_def)
  then show ?thesis using nn by (simp add: read_dim_def)
qed


theorem read_dim_zero_based_witness:
  "(0::int) \<le> 3 \<and> (3::int) = int (length [(0, 1), (1, 2), (2, 0 :: int)]) \<and>
   (\<exists>G'. read_dim empty_graph 3 3 [(0, 1), (1, 2), (2, 0)] = Inr G' \<and>
      all_nodes G' = [0, 1, 2] \<and> all_edges G' = [0, 1, 2] \<and>
      map (source G') [0, 1, 2] = [0, 1, 2] \<and> map (target G') [0, 1, 2] = [1, 2, 0])"
proof -
  let ?ls = "[(0, 1), (1, 2), (2, 0)] :: (int \<times> int) list"
  have h1: "(0::int) \<le> 3" by simp
  have h2: "(3::int) = int (length ?ls)" by simp
  have h3: "\<forall>(v, w) \<in> set ?ls. 0 \<le> v \<and> v < 3 \<and> 0 \<le> w \<and> w < 3" by simp
  have l: "length ?ls = 3" by simp
  from read_dim_zero_based[OF h1 h2 h3, of empty_graph]
  obtain G' where g: "read_dim empty_graph 3 3 ?ls = Inr G'"
    and n: "all_nodes G' = [0..<nat 3]" and e: "all_edges G' = [0..<length ?ls]" and
    st: "\<forall>i < length ?ls. source G' i = nat (fst (?ls ! i)) \<and>
        target G' i = nat (snd (?ls ! i)) \<and> \<not> hidden G' i"
    by blast
  have u: "[0..<nat 3] = [0, 1, 2]" "[0..<length ?ls] = [0, 1, 2]"
    by (simp_all add: upt_conv_Cons)
  have "source G' 0 = 0 \<and> target G' 0 = 1" using st[rule_format, of 0] by simp
  moreover have "source G' 1 = 1 \<and> target G' 1 = 2" using st[rule_format, of 1] by simp
  moreover have "source G' 2 = 2 \<and> target G' 2 = 0" using st[rule_format, of 2] by simp
  ultimately show ?thesis using g n e h1 by (simp add: u upt_conv_Cons)
qed

text \<open>
  A stream with fewer lines than \<open>s\<close>: the rounds that find no line make their edge from
  the numbers of the last line read.
\<close>

lemma read_dim_short_input:
  "\<exists>G. read_dim empty_graph 2 2 [(0, 1)] = Inr G \<and> all_edges G = [0, 1] \<and>
     map (source G) [0, 1] = [0, 0] \<and> map (target G) [0, 1] = [1, 1]"
  by (simp add: read_dim_def clear_def eval_nat_numeral new_node_def empty_graph_def
      array_read_def new_edge_def ins_adj_edge_def)

section \<open>Stripping pendant edges\<close>

text \<open>
  The pendant loop of \<^verbatim>\<open>split_graph\<close>. \<open>pendant_scan\<close> is one pass
  \<^verbatim>\<open>forall_nodes(n,G)\<close> with the flag \<^verbatim>\<open>haspendent\<close>; \<^verbatim>\<open>deg1edges.push(e)\<close> puts the
  edge in front of the list. \<^verbatim>\<open>G.first_adj_edge(n)\<close> of a node without a visible edge is
  \<^verbatim>\<open>nil\<close>, which \<^verbatim>\<open>is_hidden\<close> cannot take.
\<close>

fun pendant_scan :: "node list \<Rightarrow> graph \<Rightarrow> epath \<Rightarrow> bool \<Rightarrow> error + graph \<times> epath \<times> bool" where
  "pendant_scan [] G d hp = Inr (G, d, hp)"
| "pendant_scan (n # ns) G d hp =
     (if degree G n = 1 then
        (case first_adj_edge G n of
           None \<Rightarrow> Inl LedaPrecondition
         | Some e \<Rightarrow>
             if \<not> is_hidden G e then pendant_scan ns (hide_edge G e) (e # d) True
             else pendant_scan ns G d hp)
      else pendant_scan ns G d hp)"

text \<open>
  \<open>pendant_steps G es G'\<close>: the graph \<open>G'\<close> comes from \<open>G\<close> by hiding the edges \<open>es\<close> one
  after the other, each of them, at the moment it is hidden, the only visible edge of a
  node of degree 1.
\<close>

fun pendant_steps :: "graph \<Rightarrow> epath \<Rightarrow> graph \<Rightarrow> bool" where
  "pendant_steps G [] G' = (G' = G)"
| "pendant_steps G (e # es) G' =
     ((\<exists>n \<in> set (all_nodes G). adj_visible G n = [e]) \<and> pendant_steps (hide_edge G e) es G')"

definition total_degree :: "graph \<Rightarrow> nat" where
  "total_degree G = sum_list (map (degree G) (all_nodes G))"

lemma degree_1_first:
  assumes "degree G n = 1"
  shows "\<exists>e. first_adj_edge G n = Some e \<and> \<not> hidden G e \<and> e \<in> set (adj_edges G n)"
proof -
  from assms obtain e where e: "filter (\<lambda>e. \<not> hidden G e) (adj_edges G n) = [e]"
    by (auto simp: degree_def adj_visible_def length_Suc_conv)
  from filter_eq_ConsD[OF e] have "\<not> hidden G e" "e \<in> set (adj_edges G n)" by auto
  then show ?thesis using e by (simp add: first_adj_edge_def first_visible_def)
qed

lemma filter_and_le: "length (filter (\<lambda>x. P x \<and> Q x) xs) \<le> length (filter P xs)"
  by (induction xs) auto

lemma filter_and_less:
  "e \<in> set xs \<Longrightarrow> P e \<Longrightarrow> \<not> Q e \<Longrightarrow> length (filter (\<lambda>x. P x \<and> Q x) xs) < length (filter P xs)"
  by (induction xs) (auto simp: less_Suc_eq_le filter_and_le)

lemma degree_hide:
  "degree (hide_edge G e) v = length (filter (\<lambda>x. \<not> hidden G x \<and> x \<noteq> e) (adj_edges G v))"
  by (auto simp: degree_def adj_visible_def hide_edge_def intro!: arg_cong[where f = length] filter_cong)

lemma degree_hide_le: "degree (hide_edge G e) v \<le> degree G v"
  unfolding degree_hide by (simp add: degree_def adj_visible_def filter_and_le)

lemma degree_hide_less:
  assumes "e \<in> set (adj_edges G v)" "\<not> hidden G e"
  shows "degree (hide_edge G e) v < degree G v"
  unfolding degree_hide using assms by (simp add: degree_def adj_visible_def filter_and_less)

lemma sum_list_less:
  "\<forall>v \<in> set V. f v \<le> (g v :: nat) \<Longrightarrow> n \<in> set V \<Longrightarrow> f n < g n \<Longrightarrow>
   sum_list (map f V) < sum_list (map g V)"
proof (induction V)
  case Nil
  then show ?case by simp
next
  case (Cons a V)
  have le: "sum_list (map f V) \<le> sum_list (map g V)"
    using Cons.prems(1) by (auto intro: sum_list_mono)
  show ?case
  proof (cases "n = a")
    case True
    with Cons.prems le show ?thesis by simp
  next
    case False
    with Cons.prems Cons.IH have "sum_list (map f V) < sum_list (map g V)" by auto
    moreover have "f a \<le> g a" using Cons.prems(1) by simp
    ultimately show ?thesis by simp
  qed
qed

lemma total_degree_hide:
  "n \<in> set (all_nodes G) \<Longrightarrow> e \<in> set (adj_edges G n) \<Longrightarrow> \<not> hidden G e \<Longrightarrow>
   total_degree (hide_edge G e) < total_degree G"
  unfolding total_degree_def
  using sum_list_less[of "all_nodes G" "degree (hide_edge G e)" "degree G" n]
  by (simp add: degree_hide_le degree_hide_less) (simp add: hide_edge_def)

lemma pendant_scan_total:
  "\<exists>G' d' hp'. pendant_scan ns G d hp = Inr (G', d', hp')"
proof (induction ns arbitrary: G d hp)
  case Nil
  show ?case by simp
next
  case (Cons n ns)
  show ?case
  proof (cases "degree G n = 1")
    case True
    from degree_1_first[OF this] obtain e where "first_adj_edge G n = Some e" "\<not> hidden G e" by blast
    with True Cons.IH[of "hide_edge G e" "e # d" True] show ?thesis
      by (simp add: is_hidden_def)
  next
    case False
    with Cons.IH[of G d hp] show ?thesis by simp
  qed
qed

lemma pendant_scan_props:
  "pendant_scan ns G d hp = Inr (G', d', hp') \<Longrightarrow> set ns \<subseteq> set (all_nodes G) \<Longrightarrow>
   all_nodes G' = all_nodes G \<and> all_edges G' = all_edges G \<and> adj_edges G' = adj_edges G \<and>
   source G' = source G \<and> target G' = target G \<and>
   (\<exists>new. d' = new @ d \<and> distinct new \<and> set new = {e. hidden G' e \<and> \<not> hidden G e} \<and>
      hp' = (hp \<or> new \<noteq> [])) \<and>
   total_degree G' \<le> total_degree G \<and> (G' \<noteq> G \<longrightarrow> total_degree G' < total_degree G) \<and>
   (\<forall>e. hidden G e \<longrightarrow> hidden G' e)"
proof (induction ns arbitrary: G d hp)
  case Nil
  then show ?case by auto
next
  case (Cons n ns)
  show ?case
  proof (cases "degree G n = 1")
    case True
    from degree_1_first[OF this] obtain e where
      e: "first_adj_edge G n = Some e" "\<not> hidden G e" "e \<in> set (adj_edges G n)" by blast
    let ?G1 = "hide_edge G e"
    from Cons.prems True e have r: "pendant_scan ns ?G1 (e # d) True = Inr (G', d', hp')"
      by (simp add: is_hidden_def)
    have sub: "set ns \<subseteq> set (all_nodes ?G1)" using Cons.prems(2) by (simp add: hide_edge_def)
    from Cons.IH[OF r sub] obtain new where
      f: "all_nodes G' = all_nodes ?G1" "all_edges G' = all_edges ?G1" "adj_edges G' = adj_edges ?G1"
         "source G' = source ?G1" "target G' = target ?G1" and
      n: "d' = new @ e # d" "distinct new" "set new = {x. hidden G' x \<and> \<not> hidden ?G1 x}"
         "hp' = (True \<or> new \<noteq> [])" and
      t: "total_degree G' \<le> total_degree ?G1" and h: "\<forall>x. hidden ?G1 x \<longrightarrow> hidden G' x"
      by blast
    have lt: "total_degree ?G1 < total_degree G"
      using total_degree_hide[of n G e] Cons.prems(2) e by simp
    have he: "hidden G' e" using h by (simp add: hide_edge_def)
    have "d' = (new @ [e]) @ d" using n(1) by simp
    moreover have "distinct (new @ [e])" using n(2,3) by (auto simp: hide_edge_def)
    moreover have "set (new @ [e]) = {x. hidden G' x \<and> \<not> hidden G x}"
      using n(3) he e(2) by (auto simp: hide_edge_def split: if_splits)
    moreover have "hp' = (hp \<or> new @ [e] \<noteq> [])" using n(4) by simp
    moreover have "\<forall>x. hidden G x \<longrightarrow> hidden G' x" using h by (auto simp: hide_edge_def)
    ultimately show ?thesis using f t lt
      by (intro conjI) (simp_all add: hide_edge_def)
  next
    case False
    with Cons.prems have r: "pendant_scan ns G d hp = Inr (G', d', hp')" by simp
    from Cons.IH[OF r] Cons.prems(2) show ?thesis by simp
  qed
qed

lemma pendant_scan_quiet:
  "pendant_scan ns G d False = Inr (G', d', False) \<Longrightarrow> set ns \<subseteq> set (all_nodes G) \<Longrightarrow>
   G' = G \<and> d' = d \<and> (\<forall>n \<in> set ns. degree G n \<noteq> 1)"
proof (induction ns)
  case Nil
  then show ?case by simp
next
  case (Cons n ns)
  show ?case
  proof (cases "degree G n = 1")
    case True
    from degree_1_first[OF this] obtain e where
      e: "first_adj_edge G n = Some e" "\<not> hidden G e" by blast
    with Cons.prems True have r: "pendant_scan ns (hide_edge G e) (e # d) True = Inr (G', d', False)"
      by (simp add: is_hidden_def)
    have "set ns \<subseteq> set (all_nodes (hide_edge G e))" using Cons.prems(2) by (simp add: hide_edge_def)
    from pendant_scan_props[OF r this] show ?thesis by auto
  next
    case False
    with Cons show ?thesis by simp
  qed
qed

lemma pendant_scan_less:
  assumes "pendant_scan (all_nodes G) G d False = Inr (G', d', True)"
  shows "total_degree G' < total_degree G"
proof -
  from pendant_scan_props[OF assms] obtain new where
    "d' = new @ d" "set new = {e. hidden G' e \<and> \<not> hidden G e}" "True = (False \<or> new \<noteq> [])"
    and lt: "G' \<noteq> G \<longrightarrow> total_degree G' < total_degree G" by blast
  then have "G' \<noteq> G" by (cases new) auto
  with lt show ?thesis by simp
qed

text \<open>
  The loop \<^verbatim>\<open>do { haspendent=false; ... } while(haspendent)\<close>. Every pass that sets the
  flag hides an edge, so the sum of the degrees goes down and the loop ends.
\<close>

function strip_pendants :: "graph \<Rightarrow> epath \<Rightarrow> error + graph \<times> epath" where
  "strip_pendants G d =
     (case pendant_scan (all_nodes G) G d False of
        Inl err \<Rightarrow> Inl err
      | Inr (G', d', haspendent) \<Rightarrow>
          if haspendent then strip_pendants G' d' else Inr (G', d'))"
  by pat_completeness auto
termination
  by (relation "measure (\<lambda>(G, d). total_degree G)") (auto dest: pendant_scan_less)

declare strip_pendants.simps [simp del]

lemma strip_pendants_props:
  "\<exists>G' d' new. strip_pendants G d = Inr (G', d') \<and>
     (\<forall>n \<in> set (all_nodes G'). degree G' n \<noteq> 1) \<and>
     d' = new @ d \<and> distinct new \<and> set new = {e. hidden G' e \<and> \<not> hidden G e} \<and>
     (\<forall>e. hidden G e \<longrightarrow> hidden G' e) \<and>
     all_nodes G' = all_nodes G \<and> all_edges G' = all_edges G \<and> adj_edges G' = adj_edges G \<and>
     source G' = source G \<and> target G' = target G"
proof (induction G d rule: strip_pendants.induct)
  case (1 G d)
  obtain G1 d1 hp where r: "pendant_scan (all_nodes G) G d False = Inr (G1, d1, hp)"
    using pendant_scan_total by blast
  from pendant_scan_props[OF r] obtain new1 where
    f: "all_nodes G1 = all_nodes G" "all_edges G1 = all_edges G" "adj_edges G1 = adj_edges G"
       "source G1 = source G" "target G1 = target G" and
    n: "d1 = new1 @ d" "distinct new1" "set new1 = {e. hidden G1 e \<and> \<not> hidden G e}" and
    h: "\<forall>e. hidden G e \<longrightarrow> hidden G1 e"
    by blast
  show ?case
  proof (cases hp)
    case False
    from r False have "pendant_scan (all_nodes G) G d False = Inr (G1, d1, False)" by simp
    from pendant_scan_quiet[OF this] have "G1 = G" "d1 = d"
      "\<forall>n \<in> set (all_nodes G). degree G n \<noteq> 1" by auto
    moreover have "strip_pendants G d = Inr (G1, d1)"
      using r False by (subst strip_pendants.simps) simp
    ultimately show ?thesis by auto
  next
    case True
    from "1.IH"[OF r refl refl True] obtain G' d' new where
      s: "strip_pendants G1 d1 = Inr (G', d')" and
      p: "\<forall>n \<in> set (all_nodes G'). degree G' n \<noteq> 1" and
      n2: "d' = new @ d1" "distinct new" "set new = {e. hidden G' e \<and> \<not> hidden G1 e}" and
      h2: "\<forall>e. hidden G1 e \<longrightarrow> hidden G' e" and
      f2: "all_nodes G' = all_nodes G1" "all_edges G' = all_edges G1" "adj_edges G' = adj_edges G1"
        "source G' = source G1" "target G' = target G1"
      by blast
    have "strip_pendants G d = Inr (G', d')"
      using r True s by (subst strip_pendants.simps) simp
    moreover have "d' = (new @ new1) @ d" using n2(1) n(1) by simp
    moreover have "distinct (new @ new1)" using n2(2,3) n(2,3) by auto
    moreover have "set (new @ new1) = {e. hidden G' e \<and> \<not> hidden G e}"
      using n2(3) n(3) h h2 by auto
    moreover have "\<forall>e. hidden G e \<longrightarrow> hidden G' e" using h h2 by blast
    ultimately show ?thesis using p f f2 by (intro exI[of _ G'] exI[of _ d'] exI[of _ "new @ new1"]) simp
  qed
qed

lemma pendant_steps_append:
  "pendant_steps G es G1 \<Longrightarrow> pendant_steps G1 fs G2 \<Longrightarrow> pendant_steps G (es @ fs) G2"
  by (induction es arbitrary: G) auto

lemma degree_1_single:
  assumes "degree G n = 1" "first_adj_edge G n = Some e"
  shows "adj_visible G n = [e]"
proof -
  from assms(1) obtain e' where "adj_visible G n = [e']"
    by (auto simp: degree_def length_Suc_conv)
  with assms(2) show ?thesis
    by (simp add: first_adj_edge_def first_visible_def adj_visible_def)
qed

lemma pendant_scan_trace:
  "pendant_scan ns G d hp = Inr (G', d', hp') \<Longrightarrow> set ns \<subseteq> set (all_nodes G) \<Longrightarrow>
   \<exists>new. d' = new @ d \<and> pendant_steps G (rev new) G'"
proof (induction ns arbitrary: G d hp)
  case Nil
  then show ?case by simp
next
  case (Cons n ns)
  show ?case
  proof (cases "degree G n = 1")
    case True
    from degree_1_first[OF this] obtain e where
      e: "first_adj_edge G n = Some e" "\<not> hidden G e" by blast
    from Cons.prems True e have r: "pendant_scan ns (hide_edge G e) (e # d) True = Inr (G', d', hp')"
      by (simp add: is_hidden_def)
    have sub: "set ns \<subseteq> set (all_nodes (hide_edge G e))"
      using Cons.prems(2) by (simp add: hide_edge_def)
    from Cons.IH[OF r sub] obtain new where
      n: "d' = new @ e # d" "pendant_steps (hide_edge G e) (rev new) G'" by blast
    have "n \<in> set (all_nodes G)" using Cons.prems(2) by simp
    with degree_1_single[OF True e(1)] n(2) have "pendant_steps G (rev (new @ [e])) G'"
      by auto
    moreover have "d' = (new @ [e]) @ d" using n(1) by simp
    ultimately show ?thesis by blast
  next
    case False
    with Cons.prems have r: "pendant_scan ns G d hp = Inr (G', d', hp')" by simp
    from Cons.IH[OF r] Cons.prems(2) show ?thesis by simp
  qed
qed

lemma strip_pendants_trace:
  "strip_pendants G d = Inr (G', d') \<Longrightarrow>
   (\<exists>new. d' = new @ d \<and> pendant_steps G (rev new) G') \<and>
   pendant_scan (all_nodes G') G' d' False = Inr (G', d', False)"
proof (induction G d rule: strip_pendants.induct)
  case (1 G d)
  obtain G1 d1 hp where r: "pendant_scan (all_nodes G) G d False = Inr (G1, d1, hp)"
    using pendant_scan_total by blast
  from pendant_scan_trace[OF r] obtain new1 where
    n1: "d1 = new1 @ d" "pendant_steps G (rev new1) G1" by auto
  show ?case
  proof (cases hp)
    case False
    from r False have q: "pendant_scan (all_nodes G) G d False = Inr (G1, d1, False)" by simp
    from pendant_scan_quiet[OF q] have "G1 = G" "d1 = d" by auto
    moreover have "strip_pendants G d = Inr (G1, d1)"
      using r False by (subst strip_pendants.simps) simp
    ultimately show ?thesis using "1.prems" q by auto
  next
    case True
    have "strip_pendants G d = strip_pendants G1 d1"
      using r True by (subst strip_pendants.simps) simp
    with "1.prems" have s: "strip_pendants G1 d1 = Inr (G', d')" by simp
    from "1.IH"[OF r refl refl True s] obtain new where
      n: "d' = new @ d1" "pendant_steps G1 (rev new) G'" and
      q: "pendant_scan (all_nodes G') G' d' False = Inr (G', d', False)" by blast
    have "d' = (new @ new1) @ d" using n(1) n1(1) by simp
    moreover have "pendant_steps G (rev (new @ new1)) G'"
      using pendant_steps_append[OF n1(2) n(2)] by simp
    ultimately show ?thesis using q by blast
  qed
qed

text \<open>
  Claim C6. The pendant phase always ends and returns. The edges it has put on
  \<^verbatim>\<open>deg1edges\<close> (in front of what the list held, the last one first) are the edges it
  has hidden, in the order of hiding, and each of them was, at the moment it was hidden,
  the only visible edge of a node of degree 1 (\<open>pendant_steps\<close>). The phase ends with a
  pass over all nodes that hides nothing; then no node has degree 1. The list holds
  exactly the edges hidden in the phase, each once, and nothing else of the graph has
  changed.
\<close>

theorem strip_pendants_result:
  "\<exists>G' d' new. strip_pendants G d = Inr (G', d') \<and>
     d' = new @ d \<and> pendant_steps G (rev new) G' \<and>
     pendant_scan (all_nodes G') G' d' False = Inr (G', d', False) \<and>
     (\<forall>n \<in> set (all_nodes G'). degree G' n \<noteq> 1) \<and>
     distinct new \<and> set new = {e. hidden G' e \<and> \<not> hidden G e} \<and>
     (\<forall>e. hidden G e \<longrightarrow> hidden G' e) \<and>
     all_nodes G' = all_nodes G \<and> all_edges G' = all_edges G \<and> adj_edges G' = adj_edges G \<and>
     source G' = source G \<and> target G' = target G"
proof -
  from strip_pendants_props[of G d] obtain G' d' new where
    p: "strip_pendants G d = Inr (G', d')" "\<forall>n \<in> set (all_nodes G'). degree G' n \<noteq> 1"
      "d' = new @ d" "distinct new" "set new = {e. hidden G' e \<and> \<not> hidden G e}"
      "\<forall>e. hidden G e \<longrightarrow> hidden G' e"
      "all_nodes G' = all_nodes G" "all_edges G' = all_edges G" "adj_edges G' = adj_edges G"
      "source G' = source G" "target G' = target G"
    by blast
  from strip_pendants_trace[OF p(1)] obtain new2 where
    t: "d' = new2 @ d" "pendant_steps G (rev new2) G'"
      "pendant_scan (all_nodes G') G' d' False = Inr (G', d', False)" by blast
  from t(1) p(3) have "new2 = new" by simp
  with p t show ?thesis by blast
qed

text \<open>The path 0 - 1 - 2 with the edges 0: (0,1) and 1: (1,2).\<close>

definition path3 :: graph where
  "path3 = \<lparr> all_nodes = [0, 1, 2], all_edges = [0, 1],
     source = (\<lambda>_. 0)(0 := 0, 1 := 1), target = (\<lambda>_. 0)(0 := 1, 1 := 2),
     hidden = (\<lambda>_. False),
     adj_edges = (\<lambda>_. [])(0 := [0], 1 := [0, 1], 2 := [1]),
     in_edges = (\<lambda>_. []), undirected = True, node_inf = (\<lambda>v. v) \<rparr>"

lemma path3_pass1:
  "pendant_scan (all_nodes path3) path3 [] False =
     Inr (hide_edge (hide_edge path3 0) 1, [1, 0], True)"
  by (simp add: path3_def degree_def adj_visible_def first_adj_edge_def first_visible_def
        is_hidden_def hide_edge_def)

lemma path3_pass2:
  "pendant_scan (all_nodes (hide_edge (hide_edge path3 0) (Suc 0)))
     (hide_edge (hide_edge path3 0) (Suc 0)) [Suc 0, 0] False =
     Inr (hide_edge (hide_edge path3 0) (Suc 0), [Suc 0, 0], False)"
  by (simp add: path3_def degree_def adj_visible_def first_adj_edge_def first_visible_def
        is_hidden_def hide_edge_def)

theorem strip_pendants_result_witness:
  "strip_pendants path3 [] = Inr (hide_edge (hide_edge path3 0) 1, [1, 0]) \<and>
   pendant_steps path3 [0, 1] (hide_edge (hide_edge path3 0) 1) \<and>
   degree (hide_edge (hide_edge path3 0) 1) 1 \<noteq> 1 \<and>
   {e. hidden (hide_edge (hide_edge path3 0) 1) e \<and> \<not> hidden path3 e} = {0, 1}"
proof -
  have r: "strip_pendants path3 [] = Inr (hide_edge (hide_edge path3 0) 1, [1, 0])"
    by (subst strip_pendants.simps, simp add: path3_pass1, subst strip_pendants.simps)
       (simp add: path3_pass2)
  from strip_pendants_result[of path3 "[]"] r obtain new where
    n: "\<forall>n \<in> set (all_nodes (hide_edge (hide_edge path3 0) 1)).
        degree (hide_edge (hide_edge path3 0) 1) n \<noteq> 1"
    "[1, 0] = new @ []"
    "set new = {e. hidden (hide_edge (hide_edge path3 0) 1) e \<and> \<not> hidden path3 e}"
    "pendant_steps path3 (rev new) (hide_edge (hide_edge path3 0) 1)"
    by auto
  from n(2) have "rev new = [0, 1]" by simp
  with n(4) have "pendant_steps path3 [0, 1] (hide_edge (hide_edge path3 0) 1)" by simp
  moreover have "degree (hide_edge (hide_edge path3 0) 1) 1 \<noteq> 1 \<and>
    {e. hidden (hide_edge (hide_edge path3 0) 1) e \<and> \<not> hidden path3 e} = {0, 1}"
    using n(1,2,3) by (auto simp: path3_def hide_edge_def)
  ultimately show ?thesis using r by blast
qed

section \<open>The splitter and the orchestrator\<close>

definition blocks_of :: "graph \<Rightarrow> nat \<Rightarrow> (node \<Rightarrow> int) \<Rightarrow> path list" where
  "blocks_of G num components =
     map (\<lambda>k. filter (\<lambda>n. components n = int k) (all_nodes G)) [0..<num]"

record split_result =
  sp_num :: nat
  sp_G :: graph
  sp_bridges :: epath
  sp_sigma :: "path list"
  sp_deg1edges :: epath

definition split_graph :: "graph \<Rightarrow> epath \<Rightarrow> epath \<Rightarrow> error + split_result" where
  "split_graph G bridges deg1edges =
     (let (num_b, ecomp) = BICONNECTED_COMPONENTS G in
      if \<exists>e \<in> set (visible_edges G). ecomp e < 0 then Inl UndefinedRead
      else
        (let bridges1 = collect_bridges G ecomp (visible_edges G) bridges in
         if bridges1 \<noteq> [] then
           (case hide_bridges G bridges1 of
              Inl err \<Rightarrow> Inl err
            | Inr G1 \<Rightarrow>
                (case strip_pendants G1 deg1edges of
                   Inl err \<Rightarrow> Inl err
                 | Inr (G2, deg1) \<Rightarrow>
                     (let (num, components) = COMPONENTS G2
                      in Inr \<lparr> sp_num = num, sp_G = G2, sp_bridges = bridges1,
                               sp_sigma = blocks_of G2 num components,
                               sp_deg1edges = deg1 \<rparr>)))
         else Inr \<lparr> sp_num = 1, sp_G = G, sp_bridges = bridges1,
                    sp_sigma = [all_nodes G], sp_deg1edges = deg1edges \<rparr>))"

text \<open>
  \<^verbatim>\<open>CopyInducedGraph(H,G,V)\<close>: a node of \<open>H\<close> for every node of \<open>V\<close>, with the node of \<open>G\<close>
  as its information, and an edge of \<open>H\<close> for every visible edge of \<open>G\<close> between nodes
  of \<open>V\<close>; the array \<open>Na\<close> marks the nodes whose lists have been copied.
\<close>

fun copy_nodes :: "node list \<Rightarrow> graph \<Rightarrow> (node \<Rightarrow> node option) \<Rightarrow> graph \<times> (node \<Rightarrow> node option)" where
  "copy_nodes [] H v_in_H = (H, v_in_H)"
| "copy_nodes (v # V) H v_in_H =
     (let (H1, h) = new_node H v in copy_nodes V H1 (v_in_H(v := Some h)))"

fun copy_adj ::
  "graph \<Rightarrow> (node \<Rightarrow> node option) \<Rightarrow> (node \<Rightarrow> int) \<Rightarrow> node \<Rightarrow> edge list \<Rightarrow> graph \<Rightarrow> error + graph" where
  "copy_adj G v_in_H Na v [] H = Inr H"
| "copy_adj G v_in_H Na v (e # es) H =
     (if is_hidden G e then copy_adj G v_in_H Na v es H
      else
        (let x = opposite G v e in
         case v_in_H x of
           None \<Rightarrow> copy_adj G v_in_H Na v es H
         | Some s \<Rightarrow>
             if Na x > 0 then copy_adj G v_in_H Na v es H
             else
               (case v_in_H v of
                  None \<Rightarrow> Inl LedaPrecondition
                | Some t \<Rightarrow> copy_adj G v_in_H Na v es (new_edge H s t))))"

fun copy_edges ::
  "graph \<Rightarrow> (node \<Rightarrow> node option) \<Rightarrow> node list \<Rightarrow> (node \<Rightarrow> int) \<Rightarrow> graph \<Rightarrow> error + graph" where
  "copy_edges G v_in_H [] Na H = Inr H"
| "copy_edges G v_in_H (v # V) Na H =
     (case copy_adj G v_in_H Na v (adj_edges G v) H of
        Inl err \<Rightarrow> Inl err
      | Inr H1 \<Rightarrow> copy_edges G v_in_H V (Na(v := 1)) H1)"

definition CopyInducedGraph :: "graph \<Rightarrow> node list \<Rightarrow> error + graph" where
  "CopyInducedGraph G V =
     (let H0 = (if undirected G then make_undirected empty_graph else empty_graph);
          (H1, v_in_H) = copy_nodes V H0 (\<lambda>_. None)
      in copy_edges G v_in_H V (\<lambda>_. - 1) H1)"

text \<open>
  \<^verbatim>\<open>TRICONNECTED_COMPONENTS\<close>. The state of its loop over the blocks is the array
  \<open>sigma3\<close> of the components found (\<open>cnumb\<close> is its length; the caller's array is
  fresh) and the array \<open>compnum\<close>, made with \<open>-1\<close> for every node.
\<close>

record tri_state =
  sigma3 :: "path list"
  compnum :: "node \<Rightarrow> int"

text \<open>\<^verbatim>\<open>while(r != NULL && H.degree(r) <= 2) r = H.succ_node(r)\<close>\<close>

fun find_root :: "graph \<Rightarrow> node list \<Rightarrow> node option" where
  "find_root H [] = None"
| "find_root H (r # rs) = (if degree H r \<le> 2 then find_root H rs else Some r)"

text \<open>\<^verbatim>\<open>forall(n, l) ncomplist.push(H[n])\<close> on an empty \<open>ncomplist\<close>.\<close>

definition push_inf :: "graph \<Rightarrow> node list \<Rightarrow> path" where
  "push_inf H l = fold (\<lambda>n c. node_inf H n # c) l []"

text \<open>The loop that emits the lists of \<open>sigma\<close> after the search of a block.\<close>

fun emit_sigma :: "graph \<Rightarrow> sigma \<Rightarrow> node list \<Rightarrow> tri_state \<Rightarrow> tri_state" where
  "emit_sigma H sg [] st = st"
| "emit_sigma H sg (n # ns) st =
     (if sg n \<noteq> [] then
        emit_sigma H sg ns
          \<lparr> sigma3 = sigma3 st @ [push_inf H (sg n)],
            compnum = fold (\<lambda>v c. c(node_inf H v := int (length (sigma3 st)))) (sg n) (compnum st) \<rparr>
      else emit_sigma H sg ns st)"

definition process_block :: "nat \<Rightarrow> graph \<Rightarrow> path \<Rightarrow> tri_state \<Rightarrow> (error + tri_state) option" where
  "process_block fuel G n2complist st =
     (case CopyInducedGraph G n2complist of
        Inl err \<Rightarrow> Some (Inl err)
      | Inr H \<Rightarrow>
          if length (all_nodes H) \<le> 1 then
            (case all_nodes H of
               [] \<Rightarrow> Some (Inr st)
             | r # _ \<Rightarrow> Some (Inr (st\<lparr> sigma3 := sigma3 st @ [[node_inf H r]] \<rparr>)))
          else if length (visible_edges H) = 1 then
            Some (Inr (st\<lparr> sigma3 := sigma3 st @
                         [[node_inf H (last (all_nodes H)), node_inf H (hd (all_nodes H))]] \<rparr>))
          else
            (case find_root H (all_nodes H) of
               None \<Rightarrow> Some (Inr (st\<lparr> sigma3 := sigma3 st @ [push_inf H (all_nodes H)] \<rparr>))
             | Some r \<Rightarrow>
                 (case triedge_dfs fuel (init_state H) r None [] of
                    None \<Rightarrow> None
                  | Some (Inl err) \<Rightarrow> Some (Inl err)
                  | Some (Inr (s, P)) \<Rightarrow>
                      Some (Inr (emit_sigma H (dfs_sigma s) (all_nodes H) st)))))"

fun process_blocks :: "nat \<Rightarrow> graph \<Rightarrow> path list \<Rightarrow> tri_state \<Rightarrow> (error + tri_state) option" where
  "process_blocks fuel G [] st = Some (Inr st)"
| "process_blocks fuel G (b # bs) st =
     (case process_block fuel G b st of
        None \<Rightarrow> None
      | Some (Inl err) \<Rightarrow> Some (Inl err)
      | Some (Inr st1) \<Rightarrow> process_blocks fuel G bs st1)"

text \<open>The last loop: \<^verbatim>\<open>forall_edges(e,G)\<close> with \<^verbatim>\<open>cut_edges.push(e)\<close>.\<close>

fun collect_cut_edges :: "graph \<Rightarrow> (node \<Rightarrow> int) \<Rightarrow> edge list \<Rightarrow> epath \<Rightarrow> epath" where
  "collect_cut_edges G cn [] ces = ces"
| "collect_cut_edges G cn (e # es) ces =
     (if \<not> is_hidden G e \<and> cn (source G e) \<noteq> cn (target G e)
      then collect_cut_edges G cn es (e # ces)
      else collect_cut_edges G cn es ces)"

record tri_result =
  tri_cnumb :: nat
  tri_G :: graph
  tri_cut_edges :: epath
  tri_bridges :: epath
  tri_sigma3 :: "path list"
  tri_deg1edges :: epath

definition TRICONNECTED_COMPONENTS ::
  "nat \<Rightarrow> graph \<Rightarrow> epath \<Rightarrow> epath \<Rightarrow> epath \<Rightarrow> (error + tri_result) option" where
  "TRICONNECTED_COMPONENTS fuel G cut_edges bridges deg1edges =
     (case (if \<not> Is_Biconnected G then
              (case split_graph G bridges deg1edges of
                 Inl err \<Rightarrow> Inl err
               | Inr sp \<Rightarrow>
                   if \<exists>e \<in> set (sp_bridges sp). \<not> is_hidden (sp_G sp) e
                   then Inl BridgeNotRemoved else Inr sp)
            else Inr \<lparr> sp_num = 1, sp_G = G, sp_bridges = bridges,
                       sp_sigma = [all_nodes G], sp_deg1edges = deg1edges \<rparr>) of
        Inl err \<Rightarrow> Some (Inl err)
      | Inr sp \<Rightarrow>
          (case process_blocks fuel (sp_G sp) (take (sp_num sp) (sp_sigma sp))
                  \<lparr> sigma3 = [], compnum = (\<lambda>_. - 1) \<rparr> of
             None \<Rightarrow> None
           | Some (Inl err) \<Rightarrow> Some (Inl err)
           | Some (Inr st) \<Rightarrow>
               Some (Inr \<lparr> tri_cnumb = length (sigma3 st), tri_G = sp_G sp,
                   tri_cut_edges = collect_cut_edges (sp_G sp) (compnum st)
                                     (visible_edges (sp_G sp)) cut_edges,
                   tri_bridges = sp_bridges sp, tri_sigma3 = sigma3 st,
                   tri_deg1edges = sp_deg1edges sp \<rparr>)))"

text \<open>
  Two triangles joined by one edge: the nodes 0..5 stand for the vertices 1..6, and
  the edges are 0: (0,1), 1: (1,2), 2: (2,0), 3: (3,4), 4: (4,5), 5: (5,3), 6: (2,3).
\<close>

definition two_triangles :: graph where
  "two_triangles = \<lparr> all_nodes = [0, 1, 2, 3, 4, 5], all_edges = [0, 1, 2, 3, 4, 5, 6],
     source = (\<lambda>_. 0)(0 := 0, 1 := 1, 2 := 2, 3 := 3, 4 := 4, 5 := 5, 6 := 2),
     target = (\<lambda>_. 0)(0 := 1, 1 := 2, 2 := 0, 3 := 4, 4 := 5, 5 := 3, 6 := 3),
     hidden = (\<lambda>_. False),
     adj_edges = (\<lambda>_. [])(0 := [0, 2], 1 := [1, 0], 2 := [2, 6, 1],
                          3 := [3, 5, 6], 4 := [4, 3], 5 := [5, 4]),
     in_edges = (\<lambda>_. []), undirected = True, node_inf = (\<lambda>v. v) \<rparr>"

text \<open>
  \<open>split_triangles\<close>: the two triangles without the edge that joins them.
  \<open>vertex_of\<close>: the number that the specification gives the node \<open>v\<close> in its scenarios,
  where the vertices are counted from 1.
\<close>

definition split_triangles :: graph where
  "split_triangles = hide_edge two_triangles 6"

definition vertex_of :: "node \<Rightarrow> nat" where
  "vertex_of v = v + 1"

text \<open>
  A cycle 0 - 1 - 2 - 3 with the chord (0,2) and a tail: the edges are 0: (0,1),
  1: (1,2), 2: (2,3), 3: (3,0), 4: (0,2) and 5: (3,4). \<open>cut_kite\<close> is the graph without the
  tail edge, and \<open>kite_block\<close> the copy that \<^verbatim>\<open>CopyInducedGraph\<close> makes of its block on the
  nodes 0..3.
\<close>

definition kite :: graph where
  "kite = \<lparr> all_nodes = [0, 1, 2, 3, 4], all_edges = [0, 1, 2, 3, 4, 5],
     source = (\<lambda>_. 0)(0 := 0, 1 := 1, 2 := 2, 3 := 3, 4 := 0, 5 := 3),
     target = (\<lambda>_. 0)(0 := 1, 1 := 2, 2 := 3, 3 := 0, 4 := 2, 5 := 4),
     hidden = (\<lambda>_. False),
     adj_edges = (\<lambda>_. [])(0 := [0, 4, 3], 1 := [1, 0], 2 := [2, 1, 4], 3 := [3, 5, 2], 4 := [5]),
     in_edges = (\<lambda>_. []), undirected = True, node_inf = (\<lambda>v. v) \<rparr>"

definition cut_kite :: graph where
  "cut_kite = hide_edge kite 5"

definition kite_block :: graph where
  "kite_block = \<lparr> all_nodes = [0, 1, 2, 3], all_edges = [0, 1, 2, 3, 4],
     source = (\<lambda>_. 0)(0 := 1, 1 := 2, 2 := 3, 3 := 2, 4 := 3),
     target = (\<lambda>_. 0)(0 := 0, 1 := 0, 2 := 0, 3 := 1, 4 := 2),
     hidden = (\<lambda>_. False),
     adj_edges = (\<lambda>_. [])(0 := [0, 1, 2], 1 := [0, 3], 2 := [1, 3, 4], 3 := [2, 4]),
     in_edges = (\<lambda>_. []), undirected = True, node_inf = (\<lambda>v. v) \<rparr>"

section \<open>Bridges\<close>

lemma succs_rel: "{(x, y). y \<in> set (succs E x)} = set E"
  by (auto simp: succs_def image_iff)

lemma reach_eq: "reach E a = (set E)\<^sup>* `` {a}"
proof -
  have "(set E)\<^sup>* `` {a} \<subseteq> insert a (snd ` set E)"
  proof
    fix b assume "b \<in> (set E)\<^sup>* `` {a}"
    then have "(a, b) \<in> (set E)\<^sup>*" by simp
    then show "b \<in> insert a (snd ` set E)"
      by (induction rule: rtrancl_induct) force+
  qed
  then have "finite ((set E)\<^sup>* `` {a})" by (rule finite_subset) simp
  then have "finite ({(x, y). y \<in> set (succs E x)}\<^sup>* `` {a})" by (simp only: succs_rel)
  from rtrancl_while_finite_Some[OF this, of "\<lambda>_. True"]
  obtain ws Z where r: "rtrancl_while (\<lambda>_. True) (succs E) a = Some (ws, Z)" by auto
  from rtrancl_while_Some[OF r] have "Z = (set E)\<^sup>* `` {a}"
    by (simp only: succs_rel split: if_splits) auto
  with r show ?thesis by (simp add: reach_def)
qed


lemma in_links:
  "(a, b) \<in> set (links G) \<longleftrightarrow>
     (\<exists>e \<in> set (visible_edges G). (a = source G e \<and> b = target G e) \<or>
        (a = target G e \<and> b = source G e))"
  by (auto simp: links_def)

lemma sym_links: "sym (set (links G))"
  by (auto simp: sym_def in_links)

lemma sym_links_avoiding: "sym (set (links_avoiding G x))"
  using sym_links[of G] by (auto simp: sym_def links_avoiding_def)

lemma reach_sym: "sym (set E) \<Longrightarrow> b \<in> reach E a \<Longrightarrow> a \<in> reach E b"
  unfolding reach_eq using sym_rtrancl[of "set E"] by (auto simp: sym_def)

lemma reach_refl: "a \<in> reach E a"
  by (simp add: reach_eq)

lemma reach_trans: "b \<in> reach E a \<Longrightarrow> c \<in> reach E b \<Longrightarrow> c \<in> reach E a"
  by (auto simp: reach_eq)

lemma reach_link: "(a, b) \<in> set E \<Longrightarrow> b \<in> reach E a"
  by (auto simp: reach_eq)

lemma same_block_sym: "same_block G e1 e2 \<Longrightarrow> same_block G e2 e1"
  unfolding same_block_def
  by (meson reach_sym sym_links_avoiding)

lemma ends_linked:
  assumes "e \<in> set (visible_edges G)" "a \<in> set (edge_ends G e) - {x}"
    "b \<in> set (edge_ends G e) - {x}"
  shows "b \<in> reach (links_avoiding G x) a"
proof (cases "a = b")
  case True
  then show ?thesis by (simp add: reach_refl)
next
  case False
  with assms have "(a, b) \<in> set (links_avoiding G x)"
    by (auto simp: links_avoiding_def in_links edge_ends_def)
  then show ?thesis by (rule reach_link)
qed

lemma same_block_trans:
  assumes e2: "e2 \<in> set (visible_edges G)"
    and 12: "same_block G e1 e2" and 23: "same_block G e2 e3"
  shows "same_block G e1 e3"
proof (cases "e1 = e2 \<or> e2 = e3")
  case True
  with 12 23 show ?thesis by auto
next
  case False
  have "\<exists>a \<in> set (edge_ends G e1) - {x}. \<exists>b \<in> set (edge_ends G e3) - {x}.
          b \<in> reach (links_avoiding G x) a" if x: "x \<in> set (all_nodes G)" for x
  proof -
    from 12 False x obtain a1 a2 where
      a: "a1 \<in> set (edge_ends G e1) - {x}" "a2 \<in> set (edge_ends G e2) - {x}"
         "a2 \<in> reach (links_avoiding G x) a1"
      unfolding same_block_def by blast
    from 23 False x obtain b2 b3 where
      b: "b2 \<in> set (edge_ends G e2) - {x}" "b3 \<in> set (edge_ends G e3) - {x}"
         "b3 \<in> reach (links_avoiding G x) b2"
      unfolding same_block_def by blast
    from ends_linked[OF e2 a(2) b(1)] a(3) b(3)
    have "b3 \<in> reach (links_avoiding G x) a1" by (blast intro: reach_trans)
    with a(1) b(2) show ?thesis by blast
  qed
  then show ?thesis by (simp add: same_block_def)
qed

lemma block_rep_props:
  assumes "e \<in> set (visible_edges G)"
  shows "block_rep G e \<in> set (visible_edges G)" "same_block G (block_rep G e) e"
proof -
  let ?f = "filter (\<lambda>r. same_block G r e) (visible_edges G)"
  have "e \<in> set ?f" using assms by (simp add: same_block_def)
  then have "?f \<noteq> []" by (metis empty_iff list.set(1))
  then have "hd ?f \<in> set ?f" by (rule hd_in_set)
  then show "block_rep G e \<in> set (visible_edges G)" "same_block G (block_rep G e) e"
    by (simp_all add: block_rep_def)
qed

lemma block_rep_eq_iff:
  assumes "e1 \<in> set (visible_edges G)" "e2 \<in> set (visible_edges G)"
  shows "block_rep G e1 = block_rep G e2 \<longleftrightarrow> same_block G e1 e2"
proof
  assume eq: "block_rep G e1 = block_rep G e2"
  from block_rep_props[OF assms(1)] block_rep_props[OF assms(2)] eq
  show "same_block G e1 e2"
    by (metis same_block_sym same_block_trans)
next
  assume sb: "same_block G e1 e2"
  have "filter (\<lambda>r. same_block G r e1) (visible_edges G) =
        filter (\<lambda>r. same_block G r e2) (visible_edges G)"
    using sb assms by (intro filter_cong refl) (meson same_block_sym same_block_trans)
  then show "block_rep G e1 = block_rep G e2" by (simp add: block_rep_def)
qed

lemma index_of_inj:
  "x \<in> set xs \<Longrightarrow> y \<in> set xs \<Longrightarrow> index_of xs x = index_of xs y \<Longrightarrow> x = y"
  by (induction xs) (auto simp: index_of_def split: if_splits)

lemma ecomp_eq_iff:
  assumes "e1 \<in> set (visible_edges G)" "e2 \<in> set (visible_edges G)"
    "source G e1 \<noteq> target G e1" "source G e2 \<noteq> target G e2"
  shows "snd (BICONNECTED_COMPONENTS G) e1 = snd (BICONNECTED_COMPONENTS G) e2 \<longleftrightarrow>
         same_block G e1 e2"
proof -
  have "block_rep G e1 \<in> set (block_reps G)" "block_rep G e2 \<in> set (block_reps G)"
    using assms(1,2) by (auto simp: block_reps_def)
  then have "index_of (block_reps G) (block_rep G e1) = index_of (block_reps G) (block_rep G e2)
      \<longleftrightarrow> block_rep G e1 = block_rep G e2"
    by (auto dest: index_of_inj)
  then show ?thesis using assms by (simp add: BICONNECTED_COMPONENTS_def block_rep_eq_iff)
qed

lemma filter_le_1:
  assumes "distinct xs" "x \<in> set xs" "P x"
  shows "length (filter P xs) \<le> 1 \<longleftrightarrow> (\<forall>y \<in> set xs. P y \<longrightarrow> y = x)"
proof -
  have d: "distinct (filter P xs)" using assms(1) by simp
  have x: "x \<in> set (filter P xs)" using assms by simp
  show ?thesis
  proof
    assume l: "length (filter P xs) \<le> 1"
    with x have "filter P xs = [x]"
      by (cases "filter P xs") (auto simp: le_Suc_eq)
    then have "set (filter P xs) = {x}" by simp
    then show "\<forall>y \<in> set xs. P y \<longrightarrow> y = x" by auto
  next
    assume a: "\<forall>y \<in> set xs. P y \<longrightarrow> y = x"
    then have "set (filter P xs) \<subseteq> {x}" by auto
    then have "card (set (filter P xs)) \<le> card {x}" by (intro card_mono) auto
    then show "length (filter P xs) \<le> 1" using distinct_card[OF d] by simp
  qed
qed

lemma block_size_le_1:
  assumes "distinct (visible_edges G)" "e \<in> set (visible_edges G)"
    "\<forall>e \<in> set (visible_edges G). source G e \<noteq> target G e"
  shows "block_size G (snd (BICONNECTED_COMPONENTS G)) (snd (BICONNECTED_COMPONENTS G) e) \<le> 1
     \<longleftrightarrow> (\<forall>e' \<in> set (visible_edges G). same_block G e' e \<longrightarrow> e' = e)"
proof -
  let ?ec = "snd (BICONNECTED_COMPONENTS G)"
  have "filter (\<lambda>e'. ?ec e' = ?ec e) (visible_edges G) =
        filter (\<lambda>e'. same_block G e' e) (visible_edges G)"
    using assms(2,3) by (intro filter_cong refl) (simp add: ecomp_eq_iff)
  moreover have "same_block G e e" by (simp add: same_block_def)
  ultimately show ?thesis
    using filter_le_1[OF assms(1,2), of "\<lambda>e'. same_block G e' e"]
    by (simp add: block_size_def)
qed

lemma set_collect_bridges:
  "set (collect_bridges G ecomp es b) =
     set b \<union> {e \<in> set es. block_size G ecomp (ecomp e) \<le> 1}"
  by (induction es arbitrary: b) auto


lemma visible_hide:
  "visible_edges (hide_edge G e) = filter (\<lambda>x. x \<noteq> e) (visible_edges G)"
  by (auto simp: visible_edges_def hide_edge_def intro: filter_cong)

lemma in_links_hide:
  "(a, b) \<in> set (links (hide_edge G e)) \<longleftrightarrow>
     (\<exists>e' \<in> set (visible_edges G). e' \<noteq> e \<and> ((a = source G e' \<and> b = target G e') \<or>
        (a = target G e' \<and> b = source G e')))"
  unfolding in_links visible_hide by (auto simp: hide_edge_def)

lemma links_hide_sub: "set (links (hide_edge G e)) \<subseteq> set (links G)"
proof
  fix l assume l: "l \<in> set (links (hide_edge G e))"
  obtain a b where ab: "l = (a, b)" by (cases l)
  from l[unfolded ab in_links_hide] show "l \<in> set (links G)"
    unfolding ab in_links by blast
qed

lemma links_avoiding_sub:
  assumes "x = source G e \<or> x = target G e"
  shows "set (links_avoiding G x) \<subseteq> set (links (hide_edge G e))"
proof
  fix l assume "l \<in> set (links_avoiding G x)"
  then have f: "l \<in> set (links G)" "fst l \<noteq> x" "snd l \<noteq> x"
    by (simp_all add: links_avoiding_def)
  obtain a b where ab: "l = (a, b)" by (cases l)
  with f have l: "l = (a, b)" "(a, b) \<in> set (links G)" "a \<noteq> x" "b \<noteq> x"
    by simp_all
  then obtain e' where "e' \<in> set (visible_edges G)"
    "(a = source G e' \<and> b = target G e') \<or> (a = target G e' \<and> b = source G e')"
    by (auto simp: in_links)
  moreover from this l(3,4) assms have "e' \<noteq> e" by auto
  ultimately show "l \<in> set (links (hide_edge G e))" unfolding l(1) in_links_hide by blast
qed

lemma connected_sym: "connected G a b \<Longrightarrow> connected G b a"
  unfolding connected_def using sym_rtrancl[OF sym_links[of G]] by (auto simp: sym_def)

lemma bridge_ends:
  assumes "e \<in> set (visible_edges G)"
  shows "is_bridge G e \<longleftrightarrow> \<not> connected (hide_edge G e) (source G e) (target G e)"
proof
  assume "\<not> connected (hide_edge G e) (source G e) (target G e)"
  moreover have "(source G e, target G e) \<in> set (links G)"
    using assms unfolding in_links by blast
  then have "connected G (source G e) (target G e)"
    unfolding connected_def by (rule r_into_rtrancl)
  ultimately show "is_bridge G e" by (auto simp: is_bridge_def)
next
  assume b: "is_bridge G e"
  show "\<not> connected (hide_edge G e) (source G e) (target G e)"
  proof
    assume c: "connected (hide_edge G e) (source G e) (target G e)"
    let ?R' = "set (links (hide_edge G e))"
    have c': "(target G e, source G e) \<in> ?R'\<^sup>*"
      using connected_sym[OF c] by (simp add: connected_def)
    have "set (links G) \<subseteq> ?R'\<^sup>*"
    proof
      fix l assume lin: "l \<in> set (links G)"
      obtain a b' where ab: "l = (a, b')" by (cases l)
      from lin[unfolded ab in_links] ab obtain e' where l: "l = (a, b')"
        "e' \<in> set (visible_edges G)"
        "(a = source G e' \<and> b' = target G e') \<or> (a = target G e' \<and> b' = source G e')"
        by blast
      show "l \<in> ?R'\<^sup>*"
      proof (cases "e' = e")
        case True
        with l c c' show ?thesis by (auto simp: connected_def)
      next
        case False
        with l have "l \<in> ?R'" unfolding l(1) in_links_hide by blast
        then show ?thesis by auto
      qed
    qed
    then have "(set (links G))\<^sup>* \<subseteq> ?R'\<^sup>*" by (rule rtrancl_subset_rtrancl)
    with b show False by (auto simp: is_bridge_def connected_def)
  qed
qed

lemma last_departure:
  "(u, y) \<in> R\<^sup>* \<Longrightarrow> y \<noteq> u \<Longrightarrow>
   \<exists>p. (u, p) \<in> R \<and> p \<noteq> u \<and> (p, y) \<in> {(a, b). (a, b) \<in> R \<and> a \<noteq> u \<and> b \<noteq> u}\<^sup>*"
proof (induction rule: rtrancl_induct)
  case base
  then show ?case by simp
next
  case (step y z)
  show ?case
  proof (cases "y = u")
    case True
    with step show ?thesis by blast
  next
    case False
    with step obtain p where p: "(u, p) \<in> R" "p \<noteq> u"
      "(p, y) \<in> {(a, b). (a, b) \<in> R \<and> a \<noteq> u \<and> b \<noteq> u}\<^sup>*" by blast
    have "(y, z) \<in> {(a, b). (a, b) \<in> R \<and> a \<noteq> u \<and> b \<noteq> u}" using step False by simp
    with p show ?thesis by (blast intro: rtrancl_into_rtrancl)
  qed
qed

lemma not_bridge_shares_block:
  assumes e: "e \<in> set (visible_edges G)" and ne: "source G e \<noteq> target G e"
    and c: "connected (hide_edge G e) (source G e) (target G e)"
  shows "\<exists>e' \<in> set (visible_edges G). e' \<noteq> e \<and> same_block G e' e"
proof -
  let ?u = "source G e" and ?v = "target G e"
  let ?R' = "set (links (hide_edge G e))"
  from last_departure[OF c[unfolded connected_def]] ne obtain p where
    p: "(?u, p) \<in> ?R'" "p \<noteq> ?u"
       "(p, ?v) \<in> {(a, b). (a, b) \<in> ?R' \<and> a \<noteq> ?u \<and> b \<noteq> ?u}\<^sup>*" by auto
  have "{(a, b). (a, b) \<in> ?R' \<and> a \<noteq> ?u \<and> b \<noteq> ?u} \<subseteq> set (links_avoiding G ?u)"
    using links_hide_sub[of G e] by (auto simp: links_avoiding_def)
  from rtrancl_mono[OF this] p(3) have "?v \<in> reach (links_avoiding G ?u) p"
    by (auto simp: reach_eq)
  then have pv: "p \<in> reach (links_avoiding G ?u) ?v"
    by (rule reach_sym[OF sym_links_avoiding])
  from p(1) obtain e' where e': "e' \<in> set (visible_edges G)" "e' \<noteq> e"
    "(?u = source G e' \<and> p = target G e') \<or> (?u = target G e' \<and> p = source G e')"
    unfolding in_links_hide by blast
  have "same_block G e e'"
    unfolding same_block_def
  proof (intro disjI2 ballI)
    fix x assume "x \<in> set (all_nodes G)"
    show "\<exists>a \<in> set (edge_ends G e) - {x}. \<exists>b \<in> set (edge_ends G e') - {x}.
            b \<in> reach (links_avoiding G x) a"
    proof (cases "x = ?u")
      case True
      have "?v \<in> set (edge_ends G e) - {x}" using True ne by (auto simp: edge_ends_def)
      moreover have "p \<in> set (edge_ends G e') - {x}" using True p(2) e'(3)
        by (auto simp: edge_ends_def)
      ultimately show ?thesis using pv True by blast
    next
      case False
      have "?u \<in> set (edge_ends G e) - {x}" using False by (auto simp: edge_ends_def)
      moreover have "?u \<in> set (edge_ends G e') - {x}" using False e'(3)
        by (auto simp: edge_ends_def)
      ultimately show ?thesis using reach_refl by blast
    qed
  qed
  then have "same_block G e' e" by (rule same_block_sym)
  with e' show ?thesis by blast
qed

lemma shares_block_not_bridge:
  assumes e: "e \<in> set (visible_edges G)" and ne: "source G e \<noteq> target G e"
    and n: "source G e \<in> set (all_nodes G)" "target G e \<in> set (all_nodes G)"
    and e': "e' \<in> set (visible_edges G)" "e' \<noteq> e" "same_block G e' e"
  shows "connected (hide_edge G e) (source G e) (target G e)"
proof -
  let ?u = "source G e" and ?v = "target G e"
  let ?L' = "links (hide_edge G e)"
  have sb: "same_block G e e'" using e'(3) by (rule same_block_sym)
  have sub: "reach (links_avoiding G x) a \<subseteq> reach ?L' a" if "x = ?u \<or> x = ?v" for x a
    using rtrancl_mono[OF links_avoiding_sub[OF that]] by (auto simp: reach_eq)
  from sb e'(2) n(1) obtain a b where
    "a \<in> set (edge_ends G e) - {?u}" "b \<in> set (edge_ends G e') - {?u}"
    "b \<in> reach (links_avoiding G ?u) a"
    unfolding same_block_def by blast
  then have vb: "b \<in> reach ?L' ?v" "b \<in> set (edge_ends G e')"
    using sub[of ?u] by (auto simp: edge_ends_def)
  from sb e'(2) n(2) obtain a' b' where
    "a' \<in> set (edge_ends G e) - {?v}" "b' \<in> set (edge_ends G e') - {?v}"
    "b' \<in> reach (links_avoiding G ?v) a'"
    unfolding same_block_def by blast
  then have ub: "b' \<in> reach ?L' ?u" "b' \<in> set (edge_ends G e')"
    using sub[of ?v] by (auto simp: edge_ends_def)
  have bb: "b \<in> reach ?L' b'"
  proof (cases "b = b'")
    case True
    then show ?thesis by (simp add: reach_refl)
  next
    case False
    with vb(2) ub(2) e'(1,2) have "(b', b) \<in> set ?L'"
      unfolding in_links_hide by (auto simp: edge_ends_def)
    then show ?thesis by (rule reach_link)
  qed
  have "?v \<in> reach ?L' b" using vb(1) by (rule reach_sym[OF sym_links])
  with ub(1) bb have "?v \<in> reach ?L' ?u" by (blast intro: reach_trans)
  then show ?thesis by (simp add: connected_def reach_eq)
qed

lemma block_size_bridge:
  assumes "distinct (visible_edges G)" "e \<in> set (visible_edges G)"
    and wf: "\<forall>e \<in> set (visible_edges G). source G e \<noteq> target G e \<and>
       source G e \<in> set (all_nodes G) \<and> target G e \<in> set (all_nodes G)"
  shows "block_size G (snd (BICONNECTED_COMPONENTS G)) (snd (BICONNECTED_COMPONENTS G) e) \<le> 1
     \<longleftrightarrow> is_bridge G e"
proof -
  have "(\<forall>e' \<in> set (visible_edges G). same_block G e' e \<longrightarrow> e' = e) \<longleftrightarrow>
        \<not> connected (hide_edge G e) (source G e) (target G e)"
    using not_bridge_shares_block[OF assms(2)] shares_block_not_bridge[OF assms(2)] wf assms(2)
    by blast
  then show ?thesis
    using block_size_le_1[OF assms(1,2)] wf bridge_ends[OF assms(2)] by simp
qed


lemma distinct_collect_bridges:
  "distinct es \<Longrightarrow> distinct b \<Longrightarrow> set es \<inter> set b = {} \<Longrightarrow>
   distinct (collect_bridges G ecomp es b)"
  by (induction es arbitrary: b) auto

lemma hide_bridges_ok:
  "distinct es \<Longrightarrow> \<forall>e \<in> set es. \<not> hidden G e \<Longrightarrow> \<exists>G'. hide_bridges G es = Inr G'"
proof (induction es arbitrary: G)
  case Nil
  show ?case by simp
next
  case (Cons a es)
  have "\<forall>e \<in> set es. \<not> hidden (hide_edge G a) e"
    using Cons.prems by (auto simp: hide_edge_def)
  from Cons.IH[OF _ this] Cons.prems show ?case by (simp add: is_hidden_def)
qed

lemma not_connected_closed:
  assumes "a \<in> S" "b \<notin> S" "\<forall>l \<in> set (links G). fst l \<in> S \<longrightarrow> snd l \<in> S"
  shows "\<not> connected G a b"
proof
  assume "connected G a b"
  then have "(a, b) \<in> (set (links G))\<^sup>*" by (simp add: connected_def)
  then have "b \<in> S"
    by (induction rule: rtrancl_induct) (use assms in force)+
  with assms(2) show False by simp
qed

lemma split_graph_bridges_aux:
  assumes "graph_ok G"
  shows "\<exists>sp. split_graph G [] deg1edges = Inr sp \<and>
     distinct (sp_bridges sp) \<and>
     set (sp_bridges sp) = {e \<in> set (visible_edges G). is_bridge G e}"
proof -
  let ?ec = "snd (BICONNECTED_COMPONENTS G)"
  let ?V = "visible_edges G"
  let ?b = "collect_bridges G ?ec ?V []"
  have d: "distinct ?V" using assms by (simp add: graph_ok_def visible_edges_def)
  have wf: "\<forall>e \<in> set ?V. source G e \<noteq> target G e \<and>
        source G e \<in> set (all_nodes G) \<and> target G e \<in> set (all_nodes G)"
    using assms by (simp add: graph_ok_def)
  have nl: "\<not> (\<exists>e \<in> set ?V. ?ec e < 0)"
    using wf by (auto simp: BICONNECTED_COMPONENTS_def)
  have sb: "set ?b = {e \<in> set ?V. is_bridge G e}"
    using block_size_bridge[OF d _ wf] by (auto simp: set_collect_bridges)
  have db: "distinct ?b" using d by (simp add: distinct_collect_bridges)
  show ?thesis
  proof (cases "?b = []")
    case True
    with nl sb show ?thesis
      by (simp add: split_graph_def Let_def case_prod_beta)
  next
    case False
    have "\<forall>e \<in> set ?b. \<not> hidden G e" using sb by (auto simp: visible_edges_def)
    from hide_bridges_ok[OF db this] obtain G1 where h: "hide_bridges G ?b = Inr G1" by blast
    from strip_pendants_props[of G1 deg1edges] obtain G2 d2 where
      s: "strip_pendants G1 deg1edges = Inr (G2, d2)" by blast
    from False nl h s sb db show ?thesis
      by (simp add: split_graph_def Let_def case_prod_beta)
  qed
qed

text \<open>
  Claim C5. On a graph whose edges are listed once and whose visible edges join two
  different nodes, \<^verbatim>\<open>split_graph\<close> (called with an empty list \<open>bridges\<close>) returns, and an
  edge is in the list \<open>bridges\<close> exactly when it is a visible edge whose removal
  disconnects two nodes that were connected: the edges that are alone in their block.
\<close>

theorem split_graph_bridges:
  assumes "graph_ok G"
  shows "\<exists>sp. split_graph G [] deg1edges = Inr sp \<and>
     (\<forall>e. e \<in> set (sp_bridges sp) \<longleftrightarrow> e \<in> set (visible_edges G) \<and> is_bridge G e)"
  using split_graph_bridges_aux[OF assms, of deg1edges] by auto

lemma two_steps:
  "(a, b) \<in> set (links G) \<Longrightarrow> (b, c) \<in> set (links G) \<Longrightarrow> connected G a c"
  by (auto simp: connected_def)

lemma two_triangles_ok: "graph_ok two_triangles"
  by (simp add: graph_ok_def visible_edges_def two_triangles_def)

lemma two_triangles_visible: "visible_edges two_triangles = [0, 1, 2, 3, 4, 5, 6]"
  by (simp add: visible_edges_def two_triangles_def)

lemma two_triangles_hide_links:
  "links (hide_edge two_triangles 0) =
     [(1, 2), (2, 1), (2, 0), (0, 2), (3, 4), (4, 3), (4, 5), (5, 4), (5, 3), (3, 5), (2, 3), (3, 2)]"
  "links (hide_edge two_triangles (Suc 0)) =
     [(0, 1), (1, 0), (2, 0), (0, 2), (3, 4), (4, 3), (4, 5), (5, 4), (5, 3), (3, 5), (2, 3), (3, 2)]"
  "links (hide_edge two_triangles 2) =
     [(0, 1), (1, 0), (1, 2), (2, 1), (3, 4), (4, 3), (4, 5), (5, 4), (5, 3), (3, 5), (2, 3), (3, 2)]"
  "links (hide_edge two_triangles 3) =
     [(0, 1), (1, 0), (1, 2), (2, 1), (2, 0), (0, 2), (4, 5), (5, 4), (5, 3), (3, 5), (2, 3), (3, 2)]"
  "links (hide_edge two_triangles 4) =
     [(0, 1), (1, 0), (1, 2), (2, 1), (2, 0), (0, 2), (3, 4), (4, 3), (5, 3), (3, 5), (2, 3), (3, 2)]"
  "links (hide_edge two_triangles 5) =
     [(0, 1), (1, 0), (1, 2), (2, 1), (2, 0), (0, 2), (3, 4), (4, 3), (4, 5), (5, 4), (2, 3), (3, 2)]"
  "links (hide_edge two_triangles 6) =
     [(0, 1), (1, 0), (1, 2), (2, 1), (2, 0), (0, 2), (3, 4), (4, 3), (4, 5), (5, 4), (5, 3), (3, 5)]"
  by (simp_all add: links_def visible_edges_def two_triangles_def hide_edge_def)

lemma two_triangles_ends:
  "source two_triangles 0 = 0" "source two_triangles (Suc 0) = 1" "source two_triangles 2 = 2"
  "source two_triangles 3 = 3" "source two_triangles 4 = 4" "source two_triangles 5 = 5"
  "source two_triangles 6 = 2"
  "target two_triangles 0 = 1" "target two_triangles (Suc 0) = 2" "target two_triangles 2 = 0"
  "target two_triangles 3 = 4" "target two_triangles 4 = 5" "target two_triangles 5 = 3"
  "target two_triangles 6 = 3"
  by (simp_all add: two_triangles_def)

lemma two_triangles_bridge: "is_bridge two_triangles 6"
proof -
  have "\<not> connected (hide_edge two_triangles 6) 2 3"
    by (rule not_connected_closed[where S = "{0, 1, 2}"])
       (simp_all add: two_triangles_hide_links)
  then show ?thesis
    using bridge_ends[of 6 two_triangles]
    by (simp add: two_triangles_visible two_triangles_ends)
qed

lemma two_triangles_not_bridge:
  "\<not> is_bridge two_triangles 0" "\<not> is_bridge two_triangles 1" "\<not> is_bridge two_triangles 2"
  "\<not> is_bridge two_triangles 3" "\<not> is_bridge two_triangles 4" "\<not> is_bridge two_triangles 5"
proof -
  have "connected (hide_edge two_triangles 0) 0 1"
    by (rule two_steps[where b = 2]) (simp_all add: two_triangles_hide_links)
  then show "\<not> is_bridge two_triangles 0"
    using bridge_ends[of 0 two_triangles]
    by (simp add: two_triangles_visible two_triangles_ends)
  have "connected (hide_edge two_triangles (Suc 0)) 1 2"
    by (rule two_steps[where b = 0]) (simp_all add: two_triangles_hide_links)
  then show "\<not> is_bridge two_triangles 1"
    using bridge_ends[of "Suc 0" two_triangles]
    by (simp add: two_triangles_visible two_triangles_ends)
  have "connected (hide_edge two_triangles 2) 2 0"
    by (rule two_steps[where b = 1]) (simp_all add: two_triangles_hide_links)
  then show "\<not> is_bridge two_triangles 2"
    using bridge_ends[of 2 two_triangles]
    by (simp add: two_triangles_visible two_triangles_ends)
  have "connected (hide_edge two_triangles 3) 3 4"
    by (rule two_steps[where b = 5]) (simp_all add: two_triangles_hide_links)
  then show "\<not> is_bridge two_triangles 3"
    using bridge_ends[of 3 two_triangles]
    by (simp add: two_triangles_visible two_triangles_ends)
  have "connected (hide_edge two_triangles 4) 4 5"
    by (rule two_steps[where b = 3]) (simp_all add: two_triangles_hide_links)
  then show "\<not> is_bridge two_triangles 4"
    using bridge_ends[of 4 two_triangles]
    by (simp add: two_triangles_visible two_triangles_ends)
  have "connected (hide_edge two_triangles 5) 5 3"
    by (rule two_steps[where b = 4]) (simp_all add: two_triangles_hide_links)
  then show "\<not> is_bridge two_triangles 5"
    using bridge_ends[of 5 two_triangles]
    by (simp add: two_triangles_visible two_triangles_ends)
qed

theorem split_graph_bridges_witness:
  "graph_ok two_triangles \<and>
   (\<exists>sp. split_graph two_triangles [] [] = Inr sp \<and> set (sp_bridges sp) = {6})"
proof -
  from split_graph_bridges[OF two_triangles_ok, of "[]"] obtain sp where
    sp: "split_graph two_triangles [] [] = Inr sp"
    "\<forall>e. e \<in> set (sp_bridges sp) \<longleftrightarrow>
       e \<in> set (visible_edges two_triangles) \<and> is_bridge two_triangles e"
    by blast
  have "set (sp_bridges sp) = {6}"
  proof (rule set_eqI)
    fix e
    show "e \<in> set (sp_bridges sp) \<longleftrightarrow> e \<in> {6}"
      unfolding sp(2)[rule_format] two_triangles_visible
      using two_triangles_bridge two_triangles_not_bridge by auto
  qed
  with sp(1) two_triangles_ok show ?thesis by blast
qed

section \<open>Two triangles joined by an edge\<close>


lemma bridge_not_biconnected:
  assumes ok: "graph_ok G" and e: "e \<in> set (visible_edges G)" "e' \<in> set (visible_edges G)"
    "e' \<noteq> e" and b: "is_bridge G e"
  shows "\<not> Is_Biconnected G"
proof -
  have wf: "source G e \<noteq> target G e" "source G e \<in> set (all_nodes G)"
    "target G e \<in> set (all_nodes G)"
    using ok e(1) by (auto simp: graph_ok_def)
  have "\<not> same_block G e' e"
    using shares_block_not_bridge[OF e(1) wf e(2,3)] bridge_ends[OF e(1)] b by blast
  then have ne: "block_rep G e' \<noteq> block_rep G e"
    using block_rep_eq_iff[OF e(2) e(1)] by simp
  have "{block_rep G e', block_rep G e} \<subseteq> set (block_reps G)"
    using e by (auto simp: block_reps_def)
  then have "card {block_rep G e', block_rep G e} \<le> card (set (block_reps G))"
    by (intro card_mono) auto
  also have "\<dots> \<le> length (block_reps G)" by (rule card_length)
  finally have "2 \<le> length (block_reps G)" using ne by simp
  then show ?thesis by (simp add: Is_Biconnected_def BICONNECTED_COMPONENTS_def)
qed

lemma collect_bridges_filter:
  "\<forall>e \<in> set es. (block_size G ec (ec e) \<le> 1) = P e \<Longrightarrow>
   collect_bridges G ec es b = rev (filter P es) @ b"
  by (induction es arbitrary: b) auto

lemma reach_exact:
  assumes "a \<in> S" "\<forall>l \<in> set E. fst l \<in> S \<longrightarrow> snd l \<in> S" "\<forall>b \<in> S. (a, b) \<in> (set E)\<^sup>*"
  shows "reach E a = S"
proof -
  have "b \<in> S" if "(a, b) \<in> (set E)\<^sup>*" for b
    using that by (induction rule: rtrancl_induct) (use assms in force)+
  with assms(3) show ?thesis by (auto simp: reach_eq)
qed

lemma two_triangles_not_biconnected: "\<not> Is_Biconnected two_triangles"
  by (rule bridge_not_biconnected[OF two_triangles_ok _ _ _ two_triangles_bridge, of 0])
     (simp_all add: two_triangles_visible)

lemma two_triangles_collect:
  "collect_bridges two_triangles (snd (BICONNECTED_COMPONENTS two_triangles))
     (visible_edges two_triangles) [] = [6]"
proof -
  have d: "distinct (visible_edges two_triangles)" by (simp add: two_triangles_visible)
  have wf: "\<forall>e \<in> set (visible_edges two_triangles).
      source two_triangles e \<noteq> target two_triangles e \<and>
      source two_triangles e \<in> set (all_nodes two_triangles) \<and>
      target two_triangles e \<in> set (all_nodes two_triangles)"
    using two_triangles_ok by (simp add: graph_ok_def)
  have "\<forall>e \<in> set (visible_edges two_triangles).
      (block_size two_triangles (snd (BICONNECTED_COMPONENTS two_triangles))
         (snd (BICONNECTED_COMPONENTS two_triangles) e) \<le> 1) = is_bridge two_triangles e"
    using block_size_bridge[OF d _ wf] by blast
  from collect_bridges_filter[OF this, of "[]"] show ?thesis
    using two_triangles_bridge two_triangles_not_bridge
    by (simp add: two_triangles_visible)
qed

lemma split_triangles_eq:
  "split_triangles = \<lparr> all_nodes = [0, 1, 2, 3, 4, 5], all_edges = [0, 1, 2, 3, 4, 5, 6],
     source = (\<lambda>_. 0)(0 := 0, 1 := 1, 2 := 2, 3 := 3, 4 := 4, 5 := 5, 6 := 2),
     target = (\<lambda>_. 0)(0 := 1, 1 := 2, 2 := 0, 3 := 4, 4 := 5, 5 := 3, 6 := 3),
     hidden = (\<lambda>_. False)(6 := True),
     adj_edges = (\<lambda>_. [])(0 := [0, 2], 1 := [1, 0], 2 := [2, 6, 1],
                          3 := [3, 5, 6], 4 := [4, 3], 5 := [5, 4]),
     in_edges = (\<lambda>_. []), undirected = True, node_inf = (\<lambda>v. v) \<rparr>"
  by (simp add: split_triangles_def hide_edge_def two_triangles_def)

lemma split_triangles_pendants: "strip_pendants split_triangles [] = Inr (split_triangles, [])"
proof -
  have "pendant_scan (all_nodes split_triangles) split_triangles [] False =
      Inr (split_triangles, [], False)"
    by (simp add: split_triangles_eq degree_def adj_visible_def)
  then show ?thesis by (subst strip_pendants.simps) simp
qed

lemma split_triangles_links:
  "links split_triangles =
     [(0, 1), (1, 0), (1, 2), (2, 1), (2, 0), (0, 2), (3, 4), (4, 3), (4, 5), (5, 4), (5, 3), (3, 5)]"
  by (simp add: split_triangles_def two_triangles_hide_links)

lemma split_triangles_reach:
  "reach (links split_triangles) 0 = {0, 1, 2}"
  "reach (links split_triangles) 3 = {3, 4, 5}"
  unfolding split_triangles_links
  by (rule reach_exact; auto intro: r_into_rtrancl)+


lemma split_triangles_components:
  "COMPONENTS split_triangles =
     (2, \<lambda>x. if x \<in> {3, 4, 5} then 1 else if x \<in> {0, 1, 2} then 0 else - 1)"
proof -
  have n: "all_nodes split_triangles = [0, 1, 2, 3, 4, 5]" by (simp add: split_triangles_eq)
  show ?thesis
    unfolding COMPONENTS_def n
    by (simp add: split_triangles_reach fun_eq_iff)
qed

lemma split_triangles_blocks:
  "blocks_of split_triangles 2
     (\<lambda>x. if x \<in> {3, 4, 5} then 1 else if x \<in> {0, 1, 2} then 0 else - 1) =
   [[0, 1, 2], [3, 4, 5]]"
proof -
  have n: "all_nodes split_triangles = [0, 1, 2, 3, 4, 5]" by (simp add: split_triangles_eq)
  have u: "[0..<2] = [0, Suc 0]" by (simp add: upt_conv_Cons)
  show ?thesis unfolding blocks_of_def n u by simp
qed






lemma split_triangles_adj:
  "adj_edges split_triangles 0 = [0, 2]" "adj_edges split_triangles (Suc 0) = [1, 0]"
  "adj_edges split_triangles 2 = [2, 6, 1]" "adj_edges split_triangles 3 = [3, 5, 6]"
  "adj_edges split_triangles 4 = [4, 3]" "adj_edges split_triangles 5 = [5, 4]"
  by (simp_all add: split_triangles_eq)

lemma split_triangles_hidden:
  "is_hidden split_triangles e = (e = 6)"
  by (simp add: split_triangles_eq is_hidden_def)

lemma split_triangles_opposite:
  "opposite split_triangles 0 0 = 1" "opposite split_triangles 0 2 = 2"
  "opposite split_triangles (Suc 0) (Suc 0) = 2" "opposite split_triangles (Suc 0) 0 = 0"
  "opposite split_triangles 2 2 = 0" "opposite split_triangles 2 (Suc 0) = 1"
  "opposite split_triangles 3 3 = 4" "opposite split_triangles 3 5 = 5"
  "opposite split_triangles 4 4 = 5" "opposite split_triangles 4 3 = 3"
  "opposite split_triangles 5 5 = 3" "opposite split_triangles 5 4 = 4"
  by (simp_all add: split_triangles_eq opposite_def)


lemma copy_block1:
  "\<exists>H. CopyInducedGraph split_triangles [0, 1, 2] = Inr H \<and>
     all_nodes H = [0, 1, 2] \<and> map (node_inf H) [0, 1, 2] = [0, 1, 2] \<and>
     length (visible_edges H) = 3 \<and> map (degree H) [0, 1, 2] = [2, 2, 2]"
  unfolding CopyInducedGraph_def
  apply (simp add: make_undirected_def empty_graph_def new_node_def)
  apply (simp add: split_triangles_adj split_triangles_hidden split_triangles_opposite)
  apply (simp add: new_edge_def ins_adj_edge_def split_triangles_eq)
  apply (simp add: visible_edges_def degree_def adj_visible_def)
  done


lemma copy_block2:
  "\<exists>H. CopyInducedGraph split_triangles [3, 4, 5] = Inr H \<and>
     all_nodes H = [0, 1, 2] \<and> map (node_inf H) [0, 1, 2] = [3, 4, 5] \<and>
     length (visible_edges H) = 3 \<and> map (degree H) [0, 1, 2] = [2, 2, 2]"
  unfolding CopyInducedGraph_def
  apply (simp add: make_undirected_def empty_graph_def new_node_def)
  apply (simp add: split_triangles_adj split_triangles_hidden split_triangles_opposite)
  apply (simp add: new_edge_def ins_adj_edge_def split_triangles_eq)
  apply (simp add: visible_edges_def degree_def adj_visible_def)
  done



lemma find_root_None: "\<forall>r \<in> set rs. degree H r \<le> 2 \<Longrightarrow> find_root H rs = None"
  by (induction rs) auto

lemma fold_push: "fold (\<lambda>n c. f n # c) l acc = rev (map f l) @ acc"
  by (induction l arbitrary: acc) auto

lemma push_inf_rev: "push_inf H l = rev (map (node_inf H) l)"
  by (simp add: push_inf_def fold_push)

lemma process_block_cycle:
  assumes "CopyInducedGraph G V = Inr H" "1 < length (all_nodes H)"
    "length (visible_edges H) \<noteq> 1" "\<forall>r \<in> set (all_nodes H). degree H r \<le> 2"
  shows "process_block fuel G V st =
    Some (Inr (st\<lparr> sigma3 := sigma3 st @ [rev (map (node_inf H) (all_nodes H))] \<rparr>))"
proof -
  have "find_root H (all_nodes H) = None" using assms(4) by (rule find_root_None)
  then show ?thesis using assms(1,2,3)
    by (simp add: process_block_def push_inf_rev)
qed


lemma split_triangles_block1:
  "process_block fuel split_triangles [0, Suc 0, 2] st =
     Some (Inr (st\<lparr> sigma3 := sigma3 st @ [[2, 1, 0]] \<rparr>))"
proof -
  from copy_block1 obtain H where h: "CopyInducedGraph split_triangles [0, 1, 2] = Inr H"
    "all_nodes H = [0, 1, 2]" "map (node_inf H) [0, 1, 2] = [0, 1, 2]"
    "length (visible_edges H) = 3" "map (degree H) [0, 1, 2] = [2, 2, 2]"
    by (elim exE conjE) (rule that, assumption+)
  have l: "1 < length (all_nodes H)" "length (visible_edges H) \<noteq> 1"
    "\<forall>r \<in> set (all_nodes H). degree H r \<le> 2"
    using h(2,4,5) by simp_all
  have "rev (map (node_inf H) (all_nodes H)) = [2, 1, 0]"
    unfolding h(2) h(3) by simp
  with process_block_cycle[OF h(1) l, of fuel st] show ?thesis by simp
qed


lemma split_triangles_block2:
  "process_block fuel split_triangles [3, 4, 5] st =
     Some (Inr (st\<lparr> sigma3 := sigma3 st @ [[5, 4, 3]] \<rparr>))"
proof -
  from copy_block2 obtain H where h: "CopyInducedGraph split_triangles [3, 4, 5] = Inr H"
    "all_nodes H = [0, 1, 2]" "map (node_inf H) [0, 1, 2] = [3, 4, 5]"
    "length (visible_edges H) = 3" "map (degree H) [0, 1, 2] = [2, 2, 2]"
    by (elim exE conjE) (rule that, assumption+)
  have l: "1 < length (all_nodes H)" "length (visible_edges H) \<noteq> 1"
    "\<forall>r \<in> set (all_nodes H). degree H r \<le> 2"
    using h(2,4,5) by simp_all
  have "rev (map (node_inf H) (all_nodes H)) = [5, 4, 3]"
    unfolding h(2) h(3) by simp
  with process_block_cycle[OF h(1) l, of fuel st] show ?thesis by simp
qed

lemma split_graph_with_bridges:
  assumes "\<not> (\<exists>e \<in> set (visible_edges G). snd (BICONNECTED_COMPONENTS G) e < 0)"
    and "collect_bridges G (snd (BICONNECTED_COMPONENTS G)) (visible_edges G) bridges = b"
    and "b \<noteq> []" and "hide_bridges G b = Inr G1" and "strip_pendants G1 d = Inr (G2, d2)"
    and "COMPONENTS G2 = (num, lab)"
  shows "split_graph G bridges d =
    Inr \<lparr> sp_num = num, sp_G = G2, sp_bridges = b, sp_sigma = blocks_of G2 num lab,
          sp_deg1edges = d2 \<rparr>"
  using assms by (simp add: split_graph_def Let_def case_prod_beta)

lemma TRICONNECTED_COMPONENTS_split:
  assumes "\<not> Is_Biconnected G" and "split_graph G bridges d = Inr sp"
    and "\<forall>e \<in> set (sp_bridges sp). is_hidden (sp_G sp) e"
    and "process_blocks fuel (sp_G sp) (take (sp_num sp) (sp_sigma sp))
           \<lparr> sigma3 = [], compnum = (\<lambda>_. - 1) \<rparr> = Some (Inr st)"
  shows "TRICONNECTED_COMPONENTS fuel G ces bridges d =
    Some (Inr \<lparr> tri_cnumb = length (sigma3 st), tri_G = sp_G sp,
       tri_cut_edges = collect_cut_edges (sp_G sp) (compnum st) (visible_edges (sp_G sp)) ces,
       tri_bridges = sp_bridges sp, tri_sigma3 = sigma3 st, tri_deg1edges = sp_deg1edges sp \<rparr>)"
  using assms by (simp add: TRICONNECTED_COMPONENTS_def)

lemma collect_cut_edges_none:
  "\<forall>e \<in> set es. cn (source G e) = cn (target G e) \<Longrightarrow> collect_cut_edges G cn es ces = ces"
  by (induction es arbitrary: ces) auto

lemma two_triangles_split:
  "split_graph two_triangles [] [] =
     Inr \<lparr> sp_num = 2, sp_G = split_triangles, sp_bridges = [6],
           sp_sigma = [[0, 1, 2], [3, 4, 5]], sp_deg1edges = [] \<rparr>"
proof -
  have nl: "\<not> (\<exists>e \<in> set (visible_edges two_triangles).
      snd (BICONNECTED_COMPONENTS two_triangles) e < 0)"
    using two_triangles_ok by (auto simp: BICONNECTED_COMPONENTS_def graph_ok_def)
  have h: "hide_bridges two_triangles [6] = Inr split_triangles"
    by (simp add: split_triangles_def is_hidden_def two_triangles_def)
  have "[6] \<noteq> ([] :: nat list)" by simp
  from split_graph_with_bridges[OF nl two_triangles_collect this h split_triangles_pendants
      split_triangles_components]
  show ?thesis unfolding split_triangles_blocks .
qed

lemma two_triangles_read:
  "\<exists>G. read_dim empty_graph 6 7 [(0, 1), (1, 2), (2, 0), (3, 4), (4, 5), (5, 3), (2, 3)] = Inr G \<and>
     make_undirected G = two_triangles"
  apply (simp add: read_dim_def clear_def eval_nat_numeral new_node_def empty_graph_def array_read_def)
  apply (simp add: new_edge_def ins_adj_edge_def make_undirected_def two_triangles_def)
  apply (auto simp: fun_eq_iff)
  done

lemma two_triangles_run:
  "TRICONNECTED_COMPONENTS fuel two_triangles [] [] [] =
     Some (Inr \<lparr> tri_cnumb = 2, tri_G = split_triangles, tri_cut_edges = [],
             tri_bridges = [6], tri_sigma3 = [[2, 1, 0], [5, 4, 3]], tri_deg1edges = [] \<rparr>)"
proof -
  let ?sp = "\<lparr> sp_num = 2, sp_G = split_triangles, sp_bridges = [6],
           sp_sigma = [[0, 1, 2], [3, 4, 5]], sp_deg1edges = [] \<rparr>"
  let ?st = "\<lparr> sigma3 = [[2, 1, 0], [5, 4, 3]], compnum = (\<lambda>_. - 1) \<rparr>"
  have b: "\<forall>e \<in> set (sp_bridges ?sp). is_hidden (sp_G ?sp) e"
    by (simp add: split_triangles_hidden)
  have p: "process_blocks fuel (sp_G ?sp) (take (sp_num ?sp) (sp_sigma ?sp))
           \<lparr> sigma3 = [], compnum = (\<lambda>_. - 1) \<rparr> = Some (Inr ?st)"
    by (simp add: split_triangles_block1 split_triangles_block2)
  have c: "collect_cut_edges split_triangles (\<lambda>_. - 1) (visible_edges split_triangles) [] = []"
    by (rule collect_cut_edges_none) simp
  from TRICONNECTED_COMPONENTS_split[OF two_triangles_not_biconnected two_triangles_split b p,
      of "[]"]
  show ?thesis by (simp add: c)
qed

text \<open>
  Claim C4. \<open>two_triangles\<close> is the graph that \<^verbatim>\<open>read_dim\<close> and \<^verbatim>\<open>make_undirected\<close> build
  from the seven edge lines of the scenario; the nodes of a graph are numbered from 0
  (claim C3), so node \<open>k\<close> is the vertex \<open>k + 1\<close> of the scenario (\<open>vertex_of\<close>).
  \<^verbatim>\<open>TRICONNECTED_COMPONENTS\<close> returns on it, whatever the bound of the search (no block
  is searched: every node of both blocks has degree 2). It returns two components, the
  vertices 1, 2, 3 and the vertices 4, 5, 6; the list \<open>bridges\<close> holds one edge, the one
  that joins the vertices 3 and 4, and it is hidden in the graph returned; there is no
  cut edge and no pendant edge.
\<close>

theorem two_triangles_components:
  "\<exists>r. TRICONNECTED_COMPONENTS fuel two_triangles [] [] [] = Some (Inr r) \<and>
     tri_cnumb r = 2 \<and> tri_sigma3 r = [[2, 1, 0], [5, 4, 3]] \<and>
     map (\<lambda>c. vertex_of ` set c) (tri_sigma3 r) = [{1, 2, 3}, {4, 5, 6}] \<and>
     tri_bridges r = [6] \<and>
     map (\<lambda>e. (vertex_of (source two_triangles e), vertex_of (target two_triangles e)))
       (tri_bridges r) = [(3, 4)] \<and>
     tri_cut_edges r = [] \<and> tri_deg1edges r = [] \<and> tri_G r = hide_edge two_triangles 6"
proof -
  let ?r = "\<lparr> tri_cnumb = 2, tri_G = split_triangles, tri_cut_edges = [],
             tri_bridges = [6], tri_sigma3 = [[2, 1, 0], [5, 4, 3]], tri_deg1edges = [] \<rparr>"
  have r: "TRICONNECTED_COMPONENTS fuel two_triangles [] [] [] = Some (Inr ?r)"
    by (rule two_triangles_run)
  have v: "map (\<lambda>c. vertex_of ` set c) [[2, 1, 0], [5, 4, 3]] = [{1, 2, 3}, {4, 5, 6}]"
    by (auto simp: vertex_of_def)
  have e: "map (\<lambda>e. (vertex_of (source two_triangles e), vertex_of (target two_triangles e)))
       [6] = [(3, 4)]"
    by (simp add: vertex_of_def two_triangles_def)
  have g: "split_triangles = hide_edge two_triangles 6" by (simp add: split_triangles_def)
  show ?thesis
    by (rule exI[of _ ?r]) (simp only: r v e g tri_result.simps simp_thms)
qed

section \<open>Cut edges\<close>

text \<open>
  \<open>different_components cs a b\<close>: the nodes \<open>a\<close> and \<open>b\<close> lie in two different lists of
  \<open>cs\<close>. \<open>nodes_ok\<close>: what every LEDA graph has, no node is listed twice and the ends
  of a visible edge are nodes of the graph.
\<close>

definition different_components :: "path list \<Rightarrow> node \<Rightarrow> node \<Rightarrow> bool" where
  "different_components cs a b \<longleftrightarrow>
     (\<exists>i < length cs. \<exists>j < length cs. i \<noteq> j \<and> a \<in> set (cs ! i) \<and> b \<in> set (cs ! j))"

definition nodes_ok :: "graph \<Rightarrow> bool" where
  "nodes_ok G \<longleftrightarrow> distinct (all_nodes G) \<and>
     (\<forall>e \<in> set (visible_edges G). source G e \<in> set (all_nodes G) \<and> target G e \<in> set (all_nodes G))"

text \<open>
  The state of the loop over the blocks. \<open>comp_inv D st\<close>: the components found so far
  hold nodes of \<open>D\<close> only (the nodes of the blocks done) and every other node still has
  the number \<open>-1\<close>. \<open>block_done V st\<close>: two nodes of the block \<open>V\<close> have different numbers
  in \<open>compnum\<close> exactly when they lie in different components. \<open>blocks_ok G sp\<close>: the
  graph that the splitter hands on is \<open>G\<close> with the bridges and the pendant edges hidden,
  no node lies in two of its blocks and no visible edge leaves a block.
\<close>

definition comp_inv :: "node set \<Rightarrow> tri_state \<Rightarrow> bool" where
  "comp_inv D st \<longleftrightarrow> (\<forall>L \<in> set (sigma3 st). set L \<subseteq> D) \<and> (\<forall>x. x \<notin> D \<longrightarrow> compnum st x = - 1)"

definition block_done :: "node set \<Rightarrow> tri_state \<Rightarrow> bool" where
  "block_done V st \<longleftrightarrow>
     (\<forall>a \<in> V. \<forall>b \<in> V. (compnum st a \<noteq> compnum st b) = different_components (sigma3 st) a b)"

definition blocks_ok :: "graph \<Rightarrow> split_result \<Rightarrow> bool" where
  "blocks_ok G sp \<longleftrightarrow>
     all_nodes (sp_G sp) = all_nodes G \<and> all_edges (sp_G sp) = all_edges G \<and>
     source (sp_G sp) = source G \<and> target (sp_G sp) = target G \<and>
     (\<forall>e. hidden (sp_G sp) e \<longleftrightarrow> hidden G e \<or> e \<in> set (sp_bridges sp) \<or> e \<in> set (sp_deg1edges sp)) \<and>
     distinct (concat (take (sp_num sp) (sp_sigma sp))) \<and>
     (\<forall>(a, b) \<in> set (links (sp_G sp)).
        (\<exists>V \<in> set (take (sp_num sp) (sp_sigma sp)). a \<in> set V \<and> b \<in> set V) \<or>
        (a \<notin> set (concat (take (sp_num sp) (sp_sigma sp))) \<and>
         b \<notin> set (concat (take (sp_num sp) (sp_sigma sp)))))"


lemma copy_nodes_facts:
  "copy_nodes V H vin = (H1, vin1) \<Longrightarrow> all_nodes H = [0..<k] \<Longrightarrow>
   all_nodes H1 = [0..<k + length V] \<and>
   (\<forall>i < length V. node_inf H1 (k + i) = V ! i) \<and>
   (\<forall>j < k. node_inf H1 j = node_inf H j) \<and>
   (\<forall>x s. vin1 x = Some s \<longrightarrow> vin x = Some s \<or> s < k + length V) \<and>
   all_edges H1 = all_edges H \<and> adj_edges H1 = adj_edges H \<and> source H1 = source H \<and>
   target H1 = target H \<and> hidden H1 = hidden H \<and> undirected H1 = undirected H \<and>
   in_edges H1 = in_edges H"
proof (induction V arbitrary: H vin k)
  case Nil
  then show ?case by simp
next
  case (Cons v V)
  let ?H' = "H\<lparr> all_nodes := all_nodes H @ [k], node_inf := (node_inf H)(k := v) \<rparr>"
  have r: "copy_nodes V ?H' (vin(v := Some k)) = (H1, vin1)"
    using Cons.prems by (simp add: new_node_def Let_def)
  have a: "all_nodes ?H' = [0..<Suc k]" using Cons.prems(2) by simp
  from Cons.IH[OF r a] have
    n: "all_nodes H1 = [0..<Suc k + length V]" and
    i: "\<forall>i < length V. node_inf H1 (Suc k + i) = V ! i" and
    j: "\<forall>j < Suc k. node_inf H1 j = node_inf ?H' j" and
    s: "\<forall>x s. vin1 x = Some s \<longrightarrow> (vin(v := Some k)) x = Some s \<or> s < Suc k + length V" and
    f: "all_edges H1 = all_edges ?H'" "adj_edges H1 = adj_edges ?H'" "source H1 = source ?H'"
       "target H1 = target ?H'" "hidden H1 = hidden ?H'" "undirected H1 = undirected ?H'"
       "in_edges H1 = in_edges ?H'"
    by auto
  have "\<forall>i < length (v # V). node_inf H1 (k + i) = (v # V) ! i"
  proof (intro allI impI)
    fix i assume "i < length (v # V)"
    then show "node_inf H1 (k + i) = (v # V) ! i"
      using i j by (cases i) auto
  qed
  moreover have "\<forall>j < k. node_inf H1 j = node_inf H j" using j by auto
  moreover have "\<forall>x s. vin1 x = Some s \<longrightarrow> vin x = Some s \<or> s < k + length (v # V)"
  proof (intro allI impI)
    fix x s' assume "vin1 x = Some s'"
    with s have "(vin(v := Some k)) x = Some s' \<or> s' < Suc k + length V" by blast
    then show "vin x = Some s' \<or> s' < k + length (v # V)"
      by (cases "x = v") auto
  qed
  ultimately show ?case using n f by simp
qed

lemma new_edge_inv:
  assumes "inv_graph N (all_edges H) H" "s \<in> set N" "t \<in> set N"
  shows "inv_graph N (all_edges (new_edge H s t)) (new_edge H s t)"
  using assms unfolding inv_graph_def new_edge_def ins_adj_edge_def Let_def
  by (auto split: if_splits)

lemma new_edge_frame:
  "all_nodes (new_edge H s t) = all_nodes H" "node_inf (new_edge H s t) = node_inf H"
  by (simp_all add: new_edge_def ins_adj_edge_def Let_def)

lemma copy_adj_inv:
  "copy_adj G vin Na v es H = Inr H' \<Longrightarrow> \<forall>x s. vin x = Some s \<longrightarrow> s \<in> set N \<Longrightarrow>
   inv_graph N (all_edges H) H \<Longrightarrow>
   inv_graph N (all_edges H') H' \<and> all_nodes H' = all_nodes H \<and> node_inf H' = node_inf H"
proof (induction es arbitrary: H)
  case Nil
  then show ?case by simp
next
  case (Cons e es)
  show ?case
  proof (cases "is_hidden G e \<or> vin (opposite G v e) = None \<or> Na (opposite G v e) > 0")
    case True
    with Cons.prems(1) have "copy_adj G vin Na v es H = Inr H'"
      by (auto simp: Let_def split: option.splits if_splits)
    from Cons.IH[OF this Cons.prems(2,3)] show ?thesis .
  next
    case False
    then obtain s where s: "vin (opposite G v e) = Some s" by auto
    with False Cons.prems(1) obtain t where t: "vin v = Some t"
      and r: "copy_adj G vin Na v es (new_edge H s t) = Inr H'"
      by (auto simp: Let_def split: option.splits if_splits)
    have "s \<in> set N" "t \<in> set N" using s t Cons.prems(2) by auto
    from new_edge_inv[OF Cons.prems(3) this]
    have "inv_graph N (all_edges (new_edge H s t)) (new_edge H s t)" .
    from Cons.IH[OF r Cons.prems(2) this] show ?thesis by (simp add: new_edge_frame)
  qed
qed

lemma copy_edges_inv:
  "copy_edges G vin V Na H = Inr H' \<Longrightarrow> \<forall>x s. vin x = Some s \<longrightarrow> s \<in> set N \<Longrightarrow>
   inv_graph N (all_edges H) H \<Longrightarrow>
   inv_graph N (all_edges H') H' \<and> all_nodes H' = all_nodes H \<and> node_inf H' = node_inf H"
proof (induction V arbitrary: Na H)
  case Nil
  then show ?case by simp
next
  case (Cons v V)
  from Cons.prems(1) obtain H1 where
    a: "copy_adj G vin Na v (adj_edges G v) H = Inr H1" and
    r: "copy_edges G vin V (Na(v := 1)) H1 = Inr H'"
    by (auto split: sum.splits)
  from copy_adj_inv[OF a Cons.prems(2,3)] have
    i: "inv_graph N (all_edges H1) H1" and f: "all_nodes H1 = all_nodes H" "node_inf H1 = node_inf H"
    by auto
  from Cons.IH[OF r Cons.prems(2) i] f show ?case by simp
qed

lemma CopyInducedGraph_ok:
  assumes "CopyInducedGraph G V = Inr H"
  shows "all_nodes H = [0..<length V] \<and> map (node_inf H) [0..<length V] = V \<and> block_ok H"
proof -
  let ?H0 = "if undirected G then make_undirected empty_graph else empty_graph"
  obtain H1 vin where c: "copy_nodes V ?H0 (\<lambda>_. None) = (H1, vin)"
    by (cases "copy_nodes V ?H0 (\<lambda>_. None)")
  have e: "copy_edges G vin V (\<lambda>_. - 1) H1 = Inr H"
    using assms c by (simp add: CopyInducedGraph_def Let_def)
  have a0: "all_nodes ?H0 = [0..<0]" by (simp add: make_undirected_def empty_graph_def)
  from copy_nodes_facts[OF c a0] have
    n: "all_nodes H1 = [0..<length V]" and
    i: "\<forall>i < length V. node_inf H1 i = V ! i" and
    s: "\<forall>x s. vin x = Some s \<longrightarrow> s < length V" and
    f: "all_edges H1 = all_edges ?H0" "adj_edges H1 = adj_edges ?H0"
    by auto
  have s': "\<forall>x s. vin x = Some s \<longrightarrow> s \<in> set [0..<length V]" using s by auto
  have g: "inv_graph [0..<length V] (all_edges H1) H1"
    using f by (simp add: inv_graph_def make_undirected_def empty_graph_def)
  from copy_edges_inv[OF e s' g] have
    r: "inv_graph [0..<length V] (all_edges H) H" "all_nodes H = all_nodes H1"
       "node_inf H = node_inf H1" by auto
  have "map (node_inf H) [0..<length V] = map ((!) V) [0..<length V]"
    using i r(3) by (intro map_cong) auto
  then have "map (node_inf H) [0..<length V] = V" by (simp add: map_nth)
  then show ?thesis using r n by (simp add: block_ok_def)
qed



lemma fold_compnum:
  "fold (\<lambda>v c. c(f v := k)) l c0 x = (if x \<in> f ` set l then k else c0 x)"
  by (induction l arbitrary: c0) auto

lemma emit_sigma_props:
  assumes "distinct (concat (map sg ns))" and "inj_on (node_inf H) (\<Union>n \<in> set ns. set (sg n))"
  shows "\<exists>new. sigma3 (emit_sigma H sg ns st) = sigma3 st @ new \<and>
     mset (concat new) = image_mset (node_inf H) (mset (concat (map sg ns))) \<and>
     (\<forall>x. x \<notin> node_inf H ` (\<Union>n \<in> set ns. set (sg n)) \<longrightarrow>
          compnum (emit_sigma H sg ns st) x = compnum st x) \<and>
     (\<forall>n \<in> set ns. \<forall>v \<in> set (sg n). \<exists>i. compnum (emit_sigma H sg ns st) (node_inf H v) = int i \<and>
          length (sigma3 st) \<le> i \<and> i < length (sigma3 st) + length new \<and>
          node_inf H v \<in> set (new ! (i - length (sigma3 st))))"
  using assms
proof (induction ns arbitrary: st)
  case Nil
  show ?case by simp
next
  case (Cons n ns)
  have d: "distinct (concat (map sg ns))" using Cons.prems(1) by simp
  have inj: "inj_on (node_inf H) (\<Union>n \<in> set ns. set (sg n))"
    using Cons.prems(2) by (auto intro: inj_on_subset)
  show ?case
  proof (cases "sg n = []")
    case True
    from Cons.IH[OF d inj, of st] True show ?thesis by simp
  next
    case False
    let ?k = "length (sigma3 st)"
    let ?st1 = "\<lparr> sigma3 = sigma3 st @ [push_inf H (sg n)],
            compnum = fold (\<lambda>v c. c(node_inf H v := int ?k)) (sg n) (compnum st) \<rparr>"
    let ?st' = "emit_sigma H sg ns ?st1"
    have e: "emit_sigma H sg (n # ns) st = ?st'" using False by simp
    from Cons.IH[OF d inj, of ?st1] obtain new where
      s: "sigma3 ?st' = sigma3 ?st1 @ new" and
      m: "mset (concat new) = image_mset (node_inf H) (mset (concat (map sg ns)))" and
      fr: "\<forall>x. x \<notin> node_inf H ` (\<Union>n \<in> set ns. set (sg n)) \<longrightarrow> compnum ?st' x = compnum ?st1 x" and
      ix: "\<forall>n \<in> set ns. \<forall>v \<in> set (sg n). \<exists>i. compnum ?st' (node_inf H v) = int i \<and>
          length (sigma3 ?st1) \<le> i \<and> i < length (sigma3 ?st1) + length new \<and>
          node_inf H v \<in> set (new ! (i - length (sigma3 ?st1)))"
      by blast
    let ?new = "push_inf H (sg n) # new"
    have pi: "push_inf H (sg n) = rev (map (node_inf H) (sg n))"
      by (simp add: push_inf_def fold_push)
    have 1: "sigma3 ?st' = sigma3 st @ ?new" using s by simp
    have 2: "mset (concat ?new) = image_mset (node_inf H) (mset (concat (map sg (n # ns))))"
      using m by (simp add: pi)
    have 3: "\<forall>x. x \<notin> node_inf H ` (\<Union>n \<in> set (n # ns). set (sg n)) \<longrightarrow>
          compnum ?st' x = compnum st x"
    proof (intro allI impI)
      fix x assume x: "x \<notin> node_inf H ` (\<Union>n \<in> set (n # ns). set (sg n))"
      then have "x \<notin> node_inf H ` (\<Union>n \<in> set ns. set (sg n))" "x \<notin> node_inf H ` set (sg n)"
        by auto
      with fr have "compnum ?st' x = compnum ?st1 x" "compnum ?st1 x = compnum st x"
        by (simp_all add: fold_compnum)
      then show "compnum ?st' x = compnum st x" by simp
    qed
    have 4: "\<forall>n' \<in> set (n # ns). \<forall>v \<in> set (sg n'). \<exists>i. compnum ?st' (node_inf H v) = int i \<and>
          ?k \<le> i \<and> i < ?k + length ?new \<and> node_inf H v \<in> set (?new ! (i - ?k))"
    proof (intro ballI)
      fix n' v assume n': "n' \<in> set (n # ns)" and v: "v \<in> set (sg n')"
      show "\<exists>i. compnum ?st' (node_inf H v) = int i \<and>
          ?k \<le> i \<and> i < ?k + length ?new \<and> node_inf H v \<in> set (?new ! (i - ?k))"
      proof (cases "\<exists>m \<in> set ns. v \<in> set (sg m)")
        case True
        then obtain m where "m \<in> set ns" "v \<in> set (sg m)" by blast
        with ix obtain i where i: "compnum ?st' (node_inf H v) = int i"
          "Suc ?k \<le> i" "i < Suc ?k + length new" "node_inf H v \<in> set (new ! (i - Suc ?k))"
          by fastforce
        from i(2) have "i - ?k = Suc (i - Suc ?k)" by arith
        then have "?new ! (i - ?k) = new ! (i - Suc ?k)" by simp
        with i show ?thesis by (intro exI[of _ i]) auto
      next
        case False
        with n' v have vn: "v \<in> set (sg n)" by auto
        have "node_inf H v \<notin> node_inf H ` (\<Union>n \<in> set ns. set (sg n))"
        proof
          assume "node_inf H v \<in> node_inf H ` (\<Union>n \<in> set ns. set (sg n))"
          then obtain m v' where mv: "m \<in> set ns" "v' \<in> set (sg m)" "node_inf H v = node_inf H v'"
            by auto
          with vn Cons.prems(2) have "v = v'" by (auto simp: inj_on_def)
          with mv False show False by blast
        qed
        with fr have "compnum ?st' (node_inf H v) = compnum ?st1 (node_inf H v)" by blast
        also have "\<dots> = int ?k" using vn by (simp add: fold_compnum)
        finally have "compnum ?st' (node_inf H v) = int ?k" .
        moreover have "node_inf H v \<in> set (?new ! (?k - ?k))" using vn by (simp add: pi)
        ultimately show ?thesis by (intro exI[of _ ?k]) auto
      qed
    qed
    from 1 2 3 4 show ?thesis unfolding e by blast
  qed
qed



lemma different_components_append:
  assumes "\<forall>L \<in> set new. a \<notin> set L \<and> b \<notin> set L"
  shows "different_components (cs @ new) a b = different_components cs a b"
proof
  assume "different_components (cs @ new) a b"
  then obtain i j where ij: "i < length (cs @ new)" "j < length (cs @ new)" "i \<noteq> j"
    "a \<in> set ((cs @ new) ! i)" "b \<in> set ((cs @ new) ! j)"
    by (auto simp: different_components_def)
  have "i < length cs"
  proof (rule ccontr)
    assume "\<not> i < length cs"
    then have "(cs @ new) ! i = new ! (i - length cs)" "i - length cs < length new"
      using ij(1) by (auto simp: nth_append)
    then have "(cs @ new) ! i \<in> set new" by simp
    with assms ij(4) show False by blast
  qed
  moreover have "j < length cs"
  proof (rule ccontr)
    assume "\<not> j < length cs"
    then have "(cs @ new) ! j = new ! (j - length cs)" "j - length cs < length new"
      using ij(2) by (auto simp: nth_append)
    then have "(cs @ new) ! j \<in> set new" by simp
    with assms ij(5) show False by blast
  qed
  ultimately show "different_components cs a b"
    using ij unfolding different_components_def by (auto simp: nth_append)
next
  assume "different_components cs a b"
  then obtain i j where "i < length cs" "j < length cs" "i \<noteq> j"
    "a \<in> set (cs ! i)" "b \<in> set (cs ! j)"
    by (auto simp: different_components_def)
  then show "different_components (cs @ new) a b"
    unfolding different_components_def
    by (intro exI[of _ i] conjI exI[of _ j]) (auto simp: nth_append)
qed

lemma not_different_one:
  assumes "\<forall>L \<in> set cs. a \<notin> set L \<and> b \<notin> set L"
  shows "\<not> different_components (cs @ [L]) a b"
proof
  assume "different_components (cs @ [L]) a b"
  then obtain i j where ij: "i < Suc (length cs)" "j < Suc (length cs)" "i \<noteq> j"
    "a \<in> set ((cs @ [L]) ! i)" "b \<in> set ((cs @ [L]) ! j)"
    by (auto simp: different_components_def)
  have "i = length cs"
  proof (rule ccontr)
    assume "i \<noteq> length cs"
    with ij(1) have "i < length cs" by simp
    then have "(cs @ [L]) ! i \<in> set cs" by (simp add: nth_append)
    with assms ij(4) show False by blast
  qed
  moreover have "j = length cs"
  proof (rule ccontr)
    assume "j \<noteq> length cs"
    with ij(2) have "j < length cs" by simp
    then have "(cs @ [L]) ! j \<in> set cs" by (simp add: nth_append)
    with assms ij(5) show False by blast
  qed
  ultimately show False using ij(3) by simp
qed

lemma block_done_preserved:
  assumes "block_done W st" "sigma3 st' = sigma3 st @ new" "\<forall>L \<in> set new. set L \<inter> W = {}"
    "\<forall>x \<in> W. compnum st' x = compnum st x"
  shows "block_done W st'"
  unfolding block_done_def
proof (intro ballI)
  fix a b assume ab: "a \<in> W" "b \<in> W"
  have "\<forall>L \<in> set new. a \<notin> set L \<and> b \<notin> set L" using assms(3) ab by blast
  from different_components_append[OF this, of "sigma3 st"]
  show "(compnum st' a \<noteq> compnum st' b) = different_components (sigma3 st') a b"
    using assms(1,2,4) ab by (simp add: block_done_def)
qed

lemma block_done_one:
  assumes "comp_inv D st" "V \<inter> D = {}" "sigma3 st' = sigma3 st @ [L]" "compnum st' = compnum st"
  shows "block_done V st'"
  unfolding block_done_def
proof (intro ballI)
  fix a b assume ab: "a \<in> V" "b \<in> V"
  then have "a \<notin> D" "b \<notin> D" using assms(2) by auto
  then have "compnum st a = - 1" "compnum st b = - 1" "\<forall>L \<in> set (sigma3 st). a \<notin> set L \<and> b \<notin> set L"
    using assms(1) by (auto simp: comp_inv_def)
  with not_different_one[of "sigma3 st" a b L]
  show "(compnum st' a \<noteq> compnum st' b) = different_components (sigma3 st') a b"
    using assms(3,4) by simp
qed

lemma distinct_concat_nth:
  "distinct (concat xs) \<Longrightarrow> i < length xs \<Longrightarrow> j < length xs \<Longrightarrow> x \<in> set (xs ! i) \<Longrightarrow>
   x \<in> set (xs ! j) \<Longrightarrow> i = j"
proof (induction xs arbitrary: i j)
  case Nil
  then show ?case by simp
next
  case (Cons a xs)
  show ?case
  proof (cases i)
    case 0
    show ?thesis
    proof (cases j)
      case 0
      with \<open>i = 0\<close> show ?thesis by simp
    next
      case (Suc j')
      with Cons.prems 0 have "x \<in> set a" "x \<in> set (xs ! j')" "j' < length xs" by auto
      then have "x \<in> set a" "x \<in> set (concat xs)" by auto
      with Cons.prems(1) show ?thesis by auto
    qed
  next
    case (Suc i')
    show ?thesis
    proof (cases j)
      case 0
      with Cons.prems Suc have "x \<in> set a" "x \<in> set (xs ! i')" "i' < length xs" by auto
      then have "x \<in> set a" "x \<in> set (concat xs)" by auto
      with Cons.prems(1) show ?thesis by auto
    next
      case (Suc j')
      with Cons.prems \<open>i = Suc i'\<close> have "i' = j'"
        by (intro Cons.IH) auto
      with Suc \<open>i = Suc i'\<close> show ?thesis by simp
    qed
  qed
qed

lemma find_root_Some: "find_root H rs = Some r \<Longrightarrow> r \<in> set rs"
  by (induction rs) (auto split: if_splits)


lemma process_block_step:
  assumes pb: "process_block fuel G V st = Some (Inr st')" and ci: "comp_inv D st"
    and dj: "set V \<inter> D = {}" and dV: "distinct V"
  shows "\<exists>new. sigma3 st' = sigma3 st @ new \<and> (\<forall>L \<in> set new. set L \<subseteq> set V) \<and>
     (\<forall>x. x \<notin> set V \<longrightarrow> compnum st' x = compnum st x) \<and> block_done (set V) st'"
proof -
  from pb obtain H where c: "CopyInducedGraph G V = Inr H"
    by (auto simp: process_block_def split: sum.splits)
  from CopyInducedGraph_ok[OF c] have n: "all_nodes H = [0..<length V]"
    and m: "map (node_inf H) (all_nodes H) = V" and bo: "block_ok H" by auto
  have img: "node_inf H ` set (all_nodes H) = set V" using m by (metis set_map)
  have inj: "inj_on (node_inf H) (set (all_nodes H))"
    using m dV by (metis distinct_map)
  have dn: "distinct (all_nodes H)" using n by simp
  consider
      (empty) "all_nodes H = []"
    | (single) x where "all_nodes H = [x]"
    | (edge) "\<not> length (all_nodes H) \<le> 1" "length (visible_edges H) = 1"
    | (cycle) "\<not> length (all_nodes H) \<le> 1" "length (visible_edges H) \<noteq> 1"
        "find_root H (all_nodes H) = None"
    | (search) r where "\<not> length (all_nodes H) \<le> 1" "length (visible_edges H) \<noteq> 1"
        "find_root H (all_nodes H) = Some r"
  proof (cases "length (all_nodes H) \<le> 1")
    case True
    then show ?thesis using empty single
      by (cases "all_nodes H"; cases "tl (all_nodes H)") auto
  next
    case False
    then show ?thesis using edge cycle search
      by (cases "find_root H (all_nodes H)") auto
  qed
  then show ?thesis
  proof cases
    case empty
    with pb c have "st' = st" by (simp add: process_block_def)
    moreover have "set V = {}" using m empty by auto
    ultimately show ?thesis by (simp add: block_done_def)
  next
    case (single x)
    let ?L = "[node_inf H x]"
    from single pb c have s: "st' = st\<lparr> sigma3 := sigma3 st @ [?L] \<rparr>"
      by (simp add: process_block_def)
    have "set ?L \<subseteq> set V" using img single by auto
    moreover have "block_done (set V) st'"
      by (rule block_done_one[OF ci dj, of _ ?L]) (simp_all add: s)
    ultimately show ?thesis using s by simp
  next
    case edge
    let ?L = "[node_inf H (last (all_nodes H)), node_inf H (hd (all_nodes H))]"
    from edge pb c have s: "st' = st\<lparr> sigma3 := sigma3 st @ [?L] \<rparr>"
      by (simp add: process_block_def)
    have "all_nodes H \<noteq> []" using edge(1) by auto
    then have "last (all_nodes H) \<in> set (all_nodes H)" "hd (all_nodes H) \<in> set (all_nodes H)"
      by simp_all
    then have "set ?L \<subseteq> set V" using img by auto
    moreover have "block_done (set V) st'"
      by (rule block_done_one[OF ci dj, of _ ?L]) (simp_all add: s)
    ultimately show ?thesis using s by simp
  next
    case cycle
    let ?L = "push_inf H (all_nodes H)"
    from cycle pb c have s: "st' = st\<lparr> sigma3 := sigma3 st @ [?L] \<rparr>"
      by (simp add: process_block_def)
    have "set ?L \<subseteq> set V" using img by (simp add: push_inf_rev)
    moreover have "block_done (set V) st'"
      by (rule block_done_one[OF ci dj, of _ ?L]) (simp_all add: s)
    ultimately show ?thesis using s by simp
  next
    case (search r)
    from search pb c obtain s P where
      t: "triedge_dfs fuel (init_state H) r None [] = Some (Inr (s, P))" and
      e: "st' = emit_sigma H (dfs_sigma s) (all_nodes H) st"
      by (auto simp: process_block_def split: option.splits sum.splits)
    let ?sg = "dfs_sigma s"
    let ?N = "all_nodes H"
    have r: "r \<in> set ?N" using search(3) by (rule find_root_Some)
    have "inv_state ?N (all_edges H) (init_state H)"
      using bo sigma_partition_init[of ?N H]
      by (simp add: inv_state_def block_ok_def) (simp add: init_state_def)
    from dfs_inv_aux[OF dn, of fuel "all_edges H", THEN conjunct1, rule_format, OF t this r]
    have sp: "sigma_partition ?N ?sg" by (simp add: inv_state_def)
    then have ms: "mset (concat (map ?sg ?N)) = mset ?N" by (simp add: sigma_partition_def)
    then have dc: "distinct (concat (map ?sg ?N))" using dn by (metis mset_eq_imp_distinct_iff)
    from sigma_partition_sets[OF sp dn] have un: "(\<Union>x \<in> set ?N. set (?sg x)) = set ?N" by blast
    have inj': "inj_on (node_inf H) (\<Union>n \<in> set ?N. set (?sg n))" using inj un by simp
    from emit_sigma_props[OF dc inj', of st] obtain new where
      1: "sigma3 st' = sigma3 st @ new" and
      2: "mset (concat new) = image_mset (node_inf H) (mset (concat (map ?sg ?N)))" and
      3: "\<forall>x. x \<notin> node_inf H ` (\<Union>n \<in> set ?N. set (?sg n)) \<longrightarrow> compnum st' x = compnum st x" and
      4: "\<forall>n \<in> set ?N. \<forall>v \<in> set (?sg n). \<exists>i. compnum st' (node_inf H v) = int i \<and>
          length (sigma3 st) \<le> i \<and> i < length (sigma3 st) + length new \<and>
          node_inf H v \<in> set (new ! (i - length (sigma3 st)))"
      unfolding e by blast
    have "mset (concat new) = mset (map (node_inf H) ?N)" using 2 ms by simp
    then have mc: "mset (concat new) = mset V" using m by simp
    then have dcn: "distinct (concat new)" using dV by (metis mset_eq_imp_distinct_iff)
    have sc: "set (concat new) = set V" using mc by (rule mset_eq_setD)
    have sub: "\<forall>L \<in> set new. set L \<subseteq> set V" using sc by auto
    have fr: "\<forall>x. x \<notin> set V \<longrightarrow> compnum st' x = compnum st x" using 3 un img by simp
    have ix: "\<exists>i. compnum st' a = int i \<and> length (sigma3 st) \<le> i \<and>
        i < length (sigma3 st) + length new \<and> a \<in> set (new ! (i - length (sigma3 st)))"
      if "a \<in> set V" for a
    proof -
      from that img obtain v where v: "v \<in> set ?N" "a = node_inf H v" by auto
      with un obtain n where "n \<in> set ?N" "v \<in> set (?sg n)" by blast
      with 4 v(2) show ?thesis by blast
    qed
    have old: "\<forall>L \<in> set (sigma3 st). set L \<inter> set V = {}"
      using ci dj by (auto simp: comp_inv_def)
    have "block_done (set V) st'"
      unfolding block_done_def
    proof (intro ballI)
      fix a b assume a: "a \<in> set V" and b: "b \<in> set V"
      let ?k = "length (sigma3 st)"
      from ix[OF a] obtain ia where ia: "compnum st' a = int ia" "?k \<le> ia"
        "ia < ?k + length new" "a \<in> set (new ! (ia - ?k))" by blast
      from ix[OF b] obtain ib where ib: "compnum st' b = int ib" "?k \<le> ib"
        "ib < ?k + length new" "b \<in> set (new ! (ib - ?k))" by blast
      have nth: "(sigma3 st @ new) ! i = new ! (i - ?k)" if "?k \<le> i" for i
        using that by (simp add: nth_append)
      have loc: "i = ia" if "i < length (sigma3 st @ new)" "a \<in> set ((sigma3 st @ new) ! i)" for i
      proof -
        have "?k \<le> i"
        proof (rule ccontr)
          assume "\<not> ?k \<le> i"
          then have "(sigma3 st @ new) ! i \<in> set (sigma3 st)" by (simp add: nth_append)
          with old that(2) a show False by blast
        qed
        with that have "i - ?k < length new" "a \<in> set (new ! (i - ?k))" by (auto simp: nth)
        moreover have "ia - ?k < length new" using ia(2,3) by arith
        ultimately have "i - ?k = ia - ?k" using ia(4) dcn by (metis distinct_concat_nth)
        then show ?thesis using ia(2) \<open>?k \<le> i\<close> by arith
      qed
      have locb: "j = ib" if "j < length (sigma3 st @ new)" "b \<in> set ((sigma3 st @ new) ! j)" for j
      proof -
        have "?k \<le> j"
        proof (rule ccontr)
          assume "\<not> ?k \<le> j"
          then have "(sigma3 st @ new) ! j \<in> set (sigma3 st)" by (simp add: nth_append)
          with old that(2) b show False by blast
        qed
        with that have "j - ?k < length new" "b \<in> set (new ! (j - ?k))" by (auto simp: nth)
        moreover have "ib - ?k < length new" using ib(2,3) by arith
        ultimately have "j - ?k = ib - ?k" using ib(4) dcn by (metis distinct_concat_nth)
        then show ?thesis using ib(2) \<open>?k \<le> j\<close> by arith
      qed
      show "(compnum st' a \<noteq> compnum st' b) = different_components (sigma3 st') a b"
      proof
        assume "compnum st' a \<noteq> compnum st' b"
        then have "ia \<noteq> ib" using ia(1) ib(1) by auto
        moreover have "a \<in> set ((sigma3 st @ new) ! ia)" "b \<in> set ((sigma3 st @ new) ! ib)"
          using ia ib by (simp_all add: nth)
        ultimately show "different_components (sigma3 st') a b"
          unfolding different_components_def 1 using ia(3) ib(3)
          by (intro exI[of _ ia] conjI exI[of _ ib]) auto
      next
        assume "different_components (sigma3 st') a b"
        then obtain i j where "i < length (sigma3 st @ new)" "j < length (sigma3 st @ new)"
          "i \<noteq> j" "a \<in> set ((sigma3 st @ new) ! i)" "b \<in> set ((sigma3 st @ new) ! j)"
          unfolding different_components_def 1 by blast
        with loc locb have "ia \<noteq> ib" by blast
        then show "compnum st' a \<noteq> compnum st' b" using ia(1) ib(1) by simp
      qed
    qed
    with 1 sub fr show ?thesis by blast
  qed
qed


lemma process_blocks_inv:
  assumes "process_blocks fuel G bs st = Some (Inr st')" "comp_inv D st"
    "distinct (concat bs)" "set (concat bs) \<inter> D = {}" "\<forall>W \<in> Done. W \<subseteq> D \<and> block_done W st"
  shows "comp_inv (D \<union> set (concat bs)) st' \<and> (\<forall>W \<in> Done \<union> set ` set bs. block_done W st')"
  using assms
proof (induction bs arbitrary: st D Done)
  case Nil
  then show ?case by simp
next
  case (Cons V bs)
  from Cons.prems(1) obtain st1 where
    b: "process_block fuel G V st = Some (Inr st1)" and
    r: "process_blocks fuel G bs st1 = Some (Inr st')"
    by (auto split: option.splits sum.splits)
  have dV: "distinct V" and dj: "set V \<inter> D = {}" using Cons.prems(3,4) by auto
  from process_block_step[OF b Cons.prems(2) dj dV] obtain new where
    s: "sigma3 st1 = sigma3 st @ new" and sub: "\<forall>L \<in> set new. set L \<subseteq> set V" and
    fr: "\<forall>x. x \<notin> set V \<longrightarrow> compnum st1 x = compnum st x" and bd: "block_done (set V) st1"
    by blast
  have ci1: "comp_inv (D \<union> set V) st1"
    using Cons.prems(2) s sub fr by (auto simp: comp_inv_def)
  have done1: "\<forall>W \<in> insert (set V) Done. W \<subseteq> D \<union> set V \<and> block_done W st1"
  proof
    fix W assume W: "W \<in> insert (set V) Done"
    show "W \<subseteq> D \<union> set V \<and> block_done W st1"
    proof (cases "W = set V")
      case True
      with bd show ?thesis by simp
    next
      case False
      with W Cons.prems(5) have w: "W \<subseteq> D" "block_done W st" by auto
      have "\<forall>L \<in> set new. set L \<inter> W = {}" using sub w(1) dj by blast
      moreover have "\<forall>x \<in> W. compnum st1 x = compnum st x" using fr w(1) dj by blast
      ultimately have "block_done W st1" using block_done_preserved[OF w(2) s] by blast
      with w(1) show ?thesis by auto
    qed
  qed
  have d: "distinct (concat bs)" "set (concat bs) \<inter> (D \<union> set V) = {}"
    using Cons.prems(3,4) by auto
  from Cons.IH[OF r ci1 d done1]
  have "comp_inv (D \<union> set V \<union> set (concat bs)) st'"
    "\<forall>W \<in> insert (set V) Done \<union> set ` set bs. block_done W st'" by auto
  moreover have "D \<union> set V \<union> set (concat bs) = D \<union> set (concat (V # bs))" by auto
  ultimately show ?case by auto
qed

lemma label_components_linked:
  assumes "sym (set E)" "\<forall>(x, y) \<in> set E. lab x = lab y"
  shows "\<forall>(x, y) \<in> set E. fst (label_components E vs lab c) x = fst (label_components E vs lab c) y"
  using assms(2)
proof (induction vs arbitrary: lab c)
  case Nil
  then show ?case by simp
next
  case (Cons v vs)
  show ?case
  proof (cases "0 \<le> lab v")
    case True
    with Cons.IH[OF Cons.prems] show ?thesis by simp
  next
    case False
    let ?lab = "\<lambda>x. if x \<in> reach E v then int c else lab x"
    have "\<forall>(x, y) \<in> set E. ?lab x = ?lab y"
    proof (intro ballI, clarify)
      fix x y assume xy: "(x, y) \<in> set E"
      then have yx: "(y, x) \<in> set E" using assms(1) by (auto simp: sym_def)
      have "x \<in> reach E v \<longleftrightarrow> y \<in> reach E v"
        using reach_trans[OF _ reach_link[OF xy]] reach_trans[OF _ reach_link[OF yx]] by blast
      with Cons.prems xy show "?lab x = ?lab y" by auto
    qed
    from Cons.IH[OF this, of "Suc c"] False show ?thesis by simp
  qed
qed

lemma COMPONENTS_linked:
  "(a, b) \<in> set (links G) \<Longrightarrow> snd (COMPONENTS G) a = snd (COMPONENTS G) b"
  using label_components_linked[OF sym_links, of G "\<lambda>_. - 1" "all_nodes G" 0]
  by (auto simp: COMPONENTS_def case_prod_beta)

lemma distinct_blocks:
  "distinct xs \<Longrightarrow> distinct ks \<Longrightarrow>
   distinct (concat (map (\<lambda>k. filter (\<lambda>n. lab n = int k) xs) ks))"
  by (induction ks) auto

lemma distinct_blocks_of: "distinct (all_nodes G) \<Longrightarrow> distinct (concat (blocks_of G num lab))"
  by (simp add: blocks_of_def distinct_blocks)

lemma in_blocks_of:
  "V \<in> set (blocks_of G num lab) \<Longrightarrow> a \<in> set V \<Longrightarrow> b \<in> set (all_nodes G) \<Longrightarrow> lab b = lab a \<Longrightarrow>
   b \<in> set V"
  by (auto simp: blocks_of_def)

lemma in_concat_blocks_of:
  "a \<in> set (concat (blocks_of G num lab)) \<Longrightarrow> b \<in> set (all_nodes G) \<Longrightarrow> lab b = lab a \<Longrightarrow>
   b \<in> set (concat (blocks_of G num lab))"
  by (auto simp: blocks_of_def)

lemma hide_bridges_frame:
  "hide_bridges G es = Inr G' \<Longrightarrow>
   all_nodes G' = all_nodes G \<and> all_edges G' = all_edges G \<and> source G' = source G \<and>
   target G' = target G \<and> (\<forall>e. hidden G' e \<longleftrightarrow> hidden G e \<or> e \<in> set es)"
proof (induction es arbitrary: G)
  case Nil
  then show ?case by simp
next
  case (Cons a es)
  from Cons.prems have "hide_bridges (hide_edge G a) es = Inr G'"
    by (simp split: if_splits)
  from Cons.IH[OF this] show ?case by (auto simp: hide_edge_def)
qed

lemma collect_cut_edges_set:
  "set (collect_cut_edges G cn es ces) =
     set ces \<union> {e \<in> set es. \<not> is_hidden G e \<and> cn (source G e) \<noteq> cn (target G e)}"
  by (induction es arbitrary: ces) auto


lemma links_nodes:
  "nodes_ok G \<Longrightarrow> (a, b) \<in> set (links G) \<Longrightarrow> a \<in> set (all_nodes G) \<and> b \<in> set (all_nodes G)"
  by (auto simp: nodes_ok_def in_links)

lemma one_block_ok:
  assumes "nodes_ok G"
  shows "blocks_ok G \<lparr> sp_num = 1, sp_G = G, sp_bridges = [], sp_sigma = [all_nodes G],
                       sp_deg1edges = [] \<rparr>"
  using assms links_nodes[OF assms] by (auto simp: blocks_ok_def nodes_ok_def)

lemma split_graph_blocks_ok:
  assumes ok: "nodes_ok G" and sp: "split_graph G [] [] = Inr sp"
  shows "blocks_ok G sp"
proof -
  let ?ec = "snd (BICONNECTED_COMPONENTS G)"
  let ?b = "collect_bridges G ?ec (visible_edges G) []"
  show ?thesis
  proof (cases "?b = []")
    case True
    with sp have "sp = \<lparr> sp_num = 1, sp_G = G, sp_bridges = [], sp_sigma = [all_nodes G],
                       sp_deg1edges = [] \<rparr>"
      by (auto simp: split_graph_def Let_def case_prod_beta split: if_splits)
    with one_block_ok[OF ok] show ?thesis by simp
  next
    case False
    with sp obtain G1 G2 d2 where
      h: "hide_bridges G ?b = Inr G1" and p: "strip_pendants G1 [] = Inr (G2, d2)" and
      s: "sp = \<lparr> sp_num = fst (COMPONENTS G2), sp_G = G2, sp_bridges = ?b,
                 sp_sigma = blocks_of G2 (fst (COMPONENTS G2)) (snd (COMPONENTS G2)),
                 sp_deg1edges = d2 \<rparr>"
      by (auto simp: split_graph_def Let_def case_prod_beta split: if_splits sum.splits)
    let ?num = "fst (COMPONENTS G2)" and ?lab = "snd (COMPONENTS G2)"
    let ?B = "blocks_of G2 ?num ?lab"
    from hide_bridges_frame[OF h] have
      f1: "all_nodes G1 = all_nodes G" "all_edges G1 = all_edges G" "source G1 = source G"
        "target G1 = target G" and h1: "\<forall>e. hidden G1 e \<longleftrightarrow> hidden G e \<or> e \<in> set ?b"
      by auto
    from strip_pendants_props[of G1 "[]"] p obtain new where
      d2: "d2 = new @ []" and n: "set new = {e. hidden G2 e \<and> \<not> hidden G1 e}" and
      h2: "\<forall>e. hidden G1 e \<longrightarrow> hidden G2 e" and
      f2: "all_nodes G2 = all_nodes G1" "all_edges G2 = all_edges G1" "source G2 = source G1"
        "target G2 = target G1"
      by auto
    have hid: "\<forall>e. hidden G2 e \<longleftrightarrow> hidden G e \<or> e \<in> set ?b \<or> e \<in> set d2"
      using h1 h2 n d2 by auto
    have tk: "take ?num ?B = ?B" by (simp add: blocks_of_def)
    have dn: "distinct (all_nodes G2)" using ok f1 f2 by (simp add: nodes_ok_def)
    have ok2: "nodes_ok G2"
      using ok hid f1 f2 unfolding nodes_ok_def visible_edges_def by auto
    have lk: "(\<exists>V \<in> set ?B. a \<in> set V \<and> b \<in> set V) \<or>
        (a \<notin> set (concat ?B) \<and> b \<notin> set (concat ?B))" if ab: "(a, b) \<in> set (links G2)" for a b
    proof -
      from COMPONENTS_linked[OF ab] have l: "?lab a = ?lab b" .
      from links_nodes[OF ok2 ab] have nd: "a \<in> set (all_nodes G2)" "b \<in> set (all_nodes G2)"
        by auto
      show ?thesis
      proof (cases "a \<in> set (concat ?B)")
        case True
        then obtain V where V: "V \<in> set ?B" "a \<in> set V" by auto
        from in_blocks_of[OF this nd(2)] l have "b \<in> set V" by simp
        with V show ?thesis by blast
      next
        case False
        have "b \<notin> set (concat ?B)"
        proof
          assume "b \<in> set (concat ?B)"
          from in_concat_blocks_of[OF this nd(1)] l False show False by simp
        qed
        with False show ?thesis by blast
      qed
    qed
    have l2: "\<forall>(a, b) \<in> set (links G2). (\<exists>V \<in> set ?B. a \<in> set V \<and> b \<in> set V) \<or>
        (a \<notin> set (concat ?B) \<and> b \<notin> set (concat ?B))"
      using lk by blast
    have e1: "all_nodes G2 = all_nodes G" "all_edges G2 = all_edges G" "source G2 = source G"
      "target G2 = target G" using f1 f2 by simp_all
    show ?thesis
      unfolding blocks_ok_def s split_result.simps tk
      by (intro conjI e1 hid l2 distinct_blocks_of[OF dn])
  qed
qed

lemma TRICONNECTED_COMPONENTS_blocks:
  assumes ok: "nodes_ok G" and r: "TRICONNECTED_COMPONENTS fuel G ces [] [] = Some (Inr r)"
  shows "\<exists>sp st. blocks_ok G sp \<and>
     process_blocks fuel (sp_G sp) (take (sp_num sp) (sp_sigma sp))
        \<lparr> sigma3 = [], compnum = (\<lambda>_. - 1) \<rparr> = Some (Inr st) \<and>
     r = \<lparr> tri_cnumb = length (sigma3 st), tri_G = sp_G sp,
           tri_cut_edges = collect_cut_edges (sp_G sp) (compnum st) (visible_edges (sp_G sp)) ces,
           tri_bridges = sp_bridges sp, tri_sigma3 = sigma3 st, tri_deg1edges = sp_deg1edges sp \<rparr>"
proof (cases "Is_Biconnected G")
  case True
  let ?sp = "\<lparr> sp_num = 1, sp_G = G, sp_bridges = [], sp_sigma = [all_nodes G],
                       sp_deg1edges = [] \<rparr>"
  from r True obtain st where
    "process_blocks fuel (sp_G ?sp) (take (sp_num ?sp) (sp_sigma ?sp))
        \<lparr> sigma3 = [], compnum = (\<lambda>_. - 1) \<rparr> = Some (Inr st)"
    "r = \<lparr> tri_cnumb = length (sigma3 st), tri_G = sp_G ?sp,
           tri_cut_edges = collect_cut_edges (sp_G ?sp) (compnum st) (visible_edges (sp_G ?sp)) ces,
           tri_bridges = sp_bridges ?sp, tri_sigma3 = sigma3 st, tri_deg1edges = sp_deg1edges ?sp \<rparr>"
    unfolding TRICONNECTED_COMPONENTS_def
    by (auto split: option.splits sum.splits)
  with one_block_ok[OF ok] show ?thesis by blast
next
  case False
  with r obtain sp where sp: "split_graph G [] [] = Inr sp"
    unfolding TRICONNECTED_COMPONENTS_def
    by (auto split: option.splits sum.splits if_splits)
  with r False obtain st where
    "process_blocks fuel (sp_G sp) (take (sp_num sp) (sp_sigma sp))
        \<lparr> sigma3 = [], compnum = (\<lambda>_. - 1) \<rparr> = Some (Inr st)"
    "r = \<lparr> tri_cnumb = length (sigma3 st), tri_G = sp_G sp,
           tri_cut_edges = collect_cut_edges (sp_G sp) (compnum st) (visible_edges (sp_G sp)) ces,
           tri_bridges = sp_bridges sp, tri_sigma3 = sigma3 st, tri_deg1edges = sp_deg1edges sp \<rparr>"
    unfolding TRICONNECTED_COMPONENTS_def
    by (auto split: option.splits sum.splits if_splits)
  with split_graph_blocks_ok[OF ok sp] show ?thesis by blast
qed

lemma cut_edges_aux:
  assumes ok: "nodes_ok G" and r: "TRICONNECTED_COMPONENTS fuel G [] [] [] = Some (Inr r)"
  shows "set (tri_cut_edges r) =
      {e \<in> set (visible_edges (tri_G r)).
         different_components (tri_sigma3 r) (source G e) (target G e)} \<and>
    all_nodes (tri_G r) = all_nodes G \<and> all_edges (tri_G r) = all_edges G \<and>
    source (tri_G r) = source G \<and> target (tri_G r) = target G \<and>
    (\<forall>e. hidden (tri_G r) e \<longleftrightarrow>
         hidden G e \<or> e \<in> set (tri_bridges r) \<or> e \<in> set (tri_deg1edges r))"
proof -
  from TRICONNECTED_COMPONENTS_blocks[OF ok r] obtain sp st where
    bo: "blocks_ok G sp" and
    pb: "process_blocks fuel (sp_G sp) (take (sp_num sp) (sp_sigma sp))
        \<lparr> sigma3 = [], compnum = (\<lambda>_. - 1) \<rparr> = Some (Inr st)" and
    rr: "r = \<lparr> tri_cnumb = length (sigma3 st), tri_G = sp_G sp,
           tri_cut_edges = collect_cut_edges (sp_G sp) (compnum st) (visible_edges (sp_G sp)) [],
           tri_bridges = sp_bridges sp, tri_sigma3 = sigma3 st, tri_deg1edges = sp_deg1edges sp \<rparr>"
    by blast
  let ?B = "take (sp_num sp) (sp_sigma sp)"
  let ?Gf = "sp_G sp"
  from bo have f: "all_nodes ?Gf = all_nodes G" "all_edges ?Gf = all_edges G"
    "source ?Gf = source G" "target ?Gf = target G"
    and hid: "\<forall>e. hidden ?Gf e \<longleftrightarrow> hidden G e \<or> e \<in> set (sp_bridges sp) \<or> e \<in> set (sp_deg1edges sp)"
    and dB: "distinct (concat ?B)"
    and lk: "\<forall>(a, b) \<in> set (links ?Gf).
        (\<exists>V \<in> set ?B. a \<in> set V \<and> b \<in> set V) \<or> (a \<notin> set (concat ?B) \<and> b \<notin> set (concat ?B))"
    unfolding blocks_ok_def by blast+
  have ci0: "comp_inv {} \<lparr> sigma3 = [], compnum = (\<lambda>_. - 1) \<rparr>" by (simp add: comp_inv_def)
  from process_blocks_inv[OF pb ci0 dB, of "{}"] have
    ci: "comp_inv (set (concat ?B)) st" and bd: "\<forall>V \<in> set ?B. block_done (set V) st"
    by auto
  have key: "(compnum st (source G e) \<noteq> compnum st (target G e)) =
      different_components (sigma3 st) (source G e) (target G e)"
    if e: "e \<in> set (visible_edges ?Gf)" for e
  proof -
    let ?a = "source G e" and ?b = "target G e"
    have "(?a, ?b) \<in> set (links ?Gf)" using e f by (auto simp: in_links)
    with lk consider V where "V \<in> set ?B" "?a \<in> set V" "?b \<in> set V"
      | "?a \<notin> set (concat ?B)" "?b \<notin> set (concat ?B)" by blast
    then show ?thesis
    proof cases
      case 1
      with bd show ?thesis unfolding block_done_def by blast
    next
      case 2
      then have "compnum st ?a = - 1" "compnum st ?b = - 1"
        using ci by (auto simp: comp_inv_def)
      moreover have "\<not> different_components (sigma3 st) ?a ?b"
      proof
        assume "different_components (sigma3 st) ?a ?b"
        then obtain i where "i < length (sigma3 st)" "?a \<in> set (sigma3 st ! i)"
          by (auto simp: different_components_def)
        then have "sigma3 st ! i \<in> set (sigma3 st)" "?a \<in> set (sigma3 st ! i)" by simp_all
        with ci have "?a \<in> set (concat ?B)" unfolding comp_inv_def by blast
        with 2 show False by simp
      qed
      ultimately show ?thesis by simp
    qed
  qed
  have "set (tri_cut_edges r) =
      {e \<in> set (visible_edges ?Gf). compnum st (source G e) \<noteq> compnum st (target G e)}"
    unfolding rr by (auto simp: collect_cut_edges_set f is_hidden_def visible_edges_def)
  also have "\<dots> = {e \<in> set (visible_edges ?Gf).
      different_components (sigma3 st) (source G e) (target G e)}"
    using key by blast
  finally have "set (tri_cut_edges r) = {e \<in> set (visible_edges (tri_G r)).
         different_components (tri_sigma3 r) (source G e) (target G e)}"
    by (simp add: rr)
  then show ?thesis using f hid by (simp add: rr)
qed

text \<open>
  Claim C1. \<^verbatim>\<open>TRICONNECTED_COMPONENTS\<close> is called with three empty lists, as \<^verbatim>\<open>main\<close>
  does. When it returns, the graph it leaves is \<open>G\<close> with the same nodes, edges and end
  points, in which the bridges and the pendant edges are hidden besides the edges that
  were hidden before; and an edge is in \<open>cut_edges\<close> exactly when it is visible in this
  graph and its two end points lie in different lists of \<open>sigma3\<close>, the components
  returned.
\<close>

theorem cut_edges_exact:
  assumes "nodes_ok G" and "TRICONNECTED_COMPONENTS fuel G [] [] [] = Some (Inr r)"
  shows "(\<forall>e. e \<in> set (tri_cut_edges r) \<longleftrightarrow>
            e \<in> set (visible_edges (tri_G r)) \<and>
            different_components (tri_sigma3 r) (source G e) (target G e)) \<and>
    all_nodes (tri_G r) = all_nodes G \<and> all_edges (tri_G r) = all_edges G \<and>
    source (tri_G r) = source G \<and> target (tri_G r) = target G \<and>
    (\<forall>e. hidden (tri_G r) e \<longleftrightarrow>
         hidden G e \<or> e \<in> set (tri_bridges r) \<or> e \<in> set (tri_deg1edges r))"
  using cut_edges_aux[OF assms] by auto

text \<open>
  The theorem at work on \<open>kite\<close>, the graph read from the edge lines (0,1), (1,2), (2,3),
  (3,0), (0,2), (3,4): the tail edge 5 is the one bridge; the search of the block on the
  nodes 0..3 returns the components \<open>{0, 2}\<close>, \<open>{1}\<close> and \<open>{3}\<close>, and the four edges of the
  cycle are the cut edges.
\<close>

text \<open>
  Rewrite rules that keep the adjacency lists of a graph in the form of a function
  update when a run of the search is evaluated.
\<close>

lemma removeAll_upd:
  "(\<lambda>v. removeAll e ((g(a := x)) v)) = (\<lambda>v. removeAll e (g v))(a := removeAll e x)"
  by (auto simp: fun_eq_iff)

lemma removeAll_const: "(\<lambda>v. removeAll e ([] :: nat list)) = (\<lambda>_. [])"
  by simp

lemma kite_read:
  "\<exists>G. read_dim empty_graph 5 6 [(0, 1), (1, 2), (2, 3), (3, 0), (0, 2), (3, 4)] = Inr G \<and>
     make_undirected G = kite"
  apply (simp add: read_dim_def clear_def eval_nat_numeral new_node_def empty_graph_def array_read_def)
  apply (simp add: new_edge_def ins_adj_edge_def make_undirected_def kite_def)
  apply (auto simp: fun_eq_iff)
  done

lemma kite_ok: "graph_ok kite"
  by (simp add: graph_ok_def visible_edges_def kite_def)

lemma nodes_ok_kite: "nodes_ok kite"
  by (simp add: nodes_ok_def visible_edges_def kite_def)

lemma kite_visible: "visible_edges kite = [0, 1, 2, 3, 4, 5]"
  by (simp add: visible_edges_def kite_def)

lemma kite_hide_links:
  "links (hide_edge kite 0) =
     [(1, 2), (2, 1), (2, 3), (3, 2), (3, 0), (0, 3), (0, 2), (2, 0), (3, 4), (4, 3)]"
  "links (hide_edge kite (Suc 0)) =
     [(0, 1), (1, 0), (2, 3), (3, 2), (3, 0), (0, 3), (0, 2), (2, 0), (3, 4), (4, 3)]"
  "links (hide_edge kite 2) =
     [(0, 1), (1, 0), (1, 2), (2, 1), (3, 0), (0, 3), (0, 2), (2, 0), (3, 4), (4, 3)]"
  "links (hide_edge kite 3) =
     [(0, 1), (1, 0), (1, 2), (2, 1), (2, 3), (3, 2), (0, 2), (2, 0), (3, 4), (4, 3)]"
  "links (hide_edge kite 4) =
     [(0, 1), (1, 0), (1, 2), (2, 1), (2, 3), (3, 2), (3, 0), (0, 3), (3, 4), (4, 3)]"
  "links (hide_edge kite 5) =
     [(0, 1), (1, 0), (1, 2), (2, 1), (2, 3), (3, 2), (3, 0), (0, 3), (0, 2), (2, 0)]"
  by (simp_all add: links_def visible_edges_def kite_def hide_edge_def)

lemma kite_ends:
  "source kite 0 = 0" "source kite (Suc 0) = 1" "source kite 2 = 2" "source kite 3 = 3" "source kite 4 = 0" "source kite 5 = 3"
  "target kite 0 = 1" "target kite (Suc 0) = 2" "target kite 2 = 3" "target kite 3 = 0" "target kite 4 = 2" "target kite 5 = 4"
  by (simp_all add: kite_def)

lemma kite_bridge: "is_bridge kite 5"
proof -
  have "\<not> connected (hide_edge kite 5) 3 4"
    by (rule not_connected_closed[where S = "{0, 1, 2, 3}"])
       (simp_all add: kite_hide_links)
  then show ?thesis
    using bridge_ends[of 5 kite]
    by (simp add: kite_visible kite_ends)
qed

lemma kite_not_bridge:
  "\<not> is_bridge kite 0" "\<not> is_bridge kite 1" "\<not> is_bridge kite 2"
  "\<not> is_bridge kite 3" "\<not> is_bridge kite 4"
proof -
  have "connected (hide_edge kite 0) 0 1"
    by (rule two_steps[where b = 2]) (simp_all add: kite_hide_links)
  then show "\<not> is_bridge kite 0"
    using bridge_ends[of 0 kite]
    by (simp add: kite_visible kite_ends)
  have "connected (hide_edge kite (Suc 0)) 1 2"
    by (rule two_steps[where b = 0]) (simp_all add: kite_hide_links)
  then show "\<not> is_bridge kite 1"
    using bridge_ends[of "Suc 0" kite]
    by (simp add: kite_visible kite_ends)
  have "connected (hide_edge kite 2) 2 3"
    by (rule two_steps[where b = 0]) (simp_all add: kite_hide_links)
  then show "\<not> is_bridge kite 2"
    using bridge_ends[of 2 kite]
    by (simp add: kite_visible kite_ends)
  have "connected (hide_edge kite 3) 3 0"
    by (rule two_steps[where b = 2]) (simp_all add: kite_hide_links)
  then show "\<not> is_bridge kite 3"
    using bridge_ends[of 3 kite]
    by (simp add: kite_visible kite_ends)
  have "connected (hide_edge kite 4) 0 2"
    by (rule two_steps[where b = 1]) (simp_all add: kite_hide_links)
  then show "\<not> is_bridge kite 4"
    using bridge_ends[of 4 kite]
    by (simp add: kite_visible kite_ends)
qed

lemma kite_not_biconnected: "\<not> Is_Biconnected kite"
  by (rule bridge_not_biconnected[OF kite_ok _ _ _ kite_bridge, of 0])
     (simp_all add: kite_visible)

lemma kite_collect:
  "collect_bridges kite (snd (BICONNECTED_COMPONENTS kite)) (visible_edges kite) [] = [5]"
proof -
  have d: "distinct (visible_edges kite)" by (simp add: kite_visible)
  have wf: "\<forall>e \<in> set (visible_edges kite).
      source kite e \<noteq> target kite e \<and>
      source kite e \<in> set (all_nodes kite) \<and>
      target kite e \<in> set (all_nodes kite)"
    using kite_ok by (simp add: graph_ok_def)
  have "\<forall>e \<in> set (visible_edges kite).
      (block_size kite (snd (BICONNECTED_COMPONENTS kite))
         (snd (BICONNECTED_COMPONENTS kite) e) \<le> 1) = is_bridge kite e"
    using block_size_bridge[OF d _ wf] by blast
  from collect_bridges_filter[OF this, of "[]"] show ?thesis
    using kite_bridge kite_not_bridge
    by (simp add: kite_visible)
qed

lemma cut_kite_eq:
  "cut_kite = \<lparr> all_nodes = [0, 1, 2, 3, 4], all_edges = [0, 1, 2, 3, 4, 5],
     source = (\<lambda>_. 0)(0 := 0, 1 := 1, 2 := 2, 3 := 3, 4 := 0, 5 := 3),
     target = (\<lambda>_. 0)(0 := 1, 1 := 2, 2 := 3, 3 := 0, 4 := 2, 5 := 4),
     hidden = (\<lambda>_. False)(5 := True),
     adj_edges = (\<lambda>_. [])(0 := [0, 4, 3], 1 := [1, 0], 2 := [2, 1, 4], 3 := [3, 5, 2], 4 := [5]),
     in_edges = (\<lambda>_. []), undirected = True, node_inf = (\<lambda>v. v) \<rparr>"
  by (simp add: cut_kite_def hide_edge_def kite_def)

lemma cut_kite_pendants: "strip_pendants cut_kite [] = Inr (cut_kite, [])"
proof -
  have "pendant_scan (all_nodes cut_kite) cut_kite [] False = Inr (cut_kite, [], False)"
    by (simp add: cut_kite_eq degree_def adj_visible_def)
  then show ?thesis by (subst strip_pendants.simps) simp
qed

lemma cut_kite_links:
  "links cut_kite = [(0, 1), (1, 0), (1, 2), (2, 1), (2, 3), (3, 2), (3, 0), (0, 3), (0, 2), (2, 0)]"
  by (simp add: cut_kite_def kite_hide_links)

lemma cut_kite_reach:
  "reach (links cut_kite) 0 = {0, 1, 2, 3}"
  "reach (links cut_kite) 4 = {4}"
  unfolding cut_kite_links
  by (rule reach_exact; auto intro: r_into_rtrancl)+


lemma cut_kite_components:
  "COMPONENTS cut_kite =
     (2, \<lambda>x. if x \<in> {4} then 1 else if x \<in> {0, 1, 2, 3} then 0 else - 1)"
proof -
  have n: "all_nodes cut_kite = [0, 1, 2, 3, 4]" by (simp add: cut_kite_eq)
  show ?thesis
    unfolding COMPONENTS_def n
    by (simp add: cut_kite_reach fun_eq_iff)
qed

lemma cut_kite_blocks:
  "blocks_of cut_kite 2
     (\<lambda>x. if x \<in> {4} then 1 else if x \<in> {0, 1, 2, 3} then 0 else - 1) =
   [[0, 1, 2, 3], [4]]"
proof -
  have n: "all_nodes cut_kite = [0, 1, 2, 3, 4]" by (simp add: cut_kite_eq)
  have u: "[0..<2] = [0, Suc 0]" by (simp add: upt_conv_Cons)
  show ?thesis unfolding blocks_of_def n u by simp
qed

lemma kite_split:
  "split_graph kite [] [] =
     Inr \<lparr> sp_num = 2, sp_G = cut_kite, sp_bridges = [5],
           sp_sigma = [[0, 1, 2, 3], [4]], sp_deg1edges = [] \<rparr>"
proof -
  have nl: "\<not> (\<exists>e \<in> set (visible_edges kite). snd (BICONNECTED_COMPONENTS kite) e < 0)"
    using kite_ok by (auto simp: BICONNECTED_COMPONENTS_def graph_ok_def)
  have h: "hide_bridges kite [5] = Inr cut_kite"
    by (simp add: cut_kite_def is_hidden_def kite_def)
  have "[5] \<noteq> ([] :: nat list)" by simp
  from split_graph_with_bridges[OF nl kite_collect this h cut_kite_pendants cut_kite_components]
  show ?thesis unfolding cut_kite_blocks .
qed

lemma cut_kite_adj:
  "adj_edges cut_kite 0 = [0, 4, 3]" "adj_edges cut_kite (Suc 0) = [1, 0]"
  "adj_edges cut_kite 2 = [2, 1, 4]" "adj_edges cut_kite 3 = [3, 5, 2]"
  "adj_edges cut_kite 4 = [5]"
  by (simp_all add: cut_kite_eq)

lemma cut_kite_hidden: "is_hidden cut_kite e = (e = 5)"
  by (simp add: cut_kite_eq is_hidden_def)

lemma cut_kite_opposite:
  "opposite cut_kite 0 0 = 1" "opposite cut_kite 0 4 = 2" "opposite cut_kite 0 3 = 3"
  "opposite cut_kite (Suc 0) (Suc 0) = 2" "opposite cut_kite (Suc 0) 0 = 0"
  "opposite cut_kite 2 2 = 3" "opposite cut_kite 2 (Suc 0) = 1" "opposite cut_kite 2 4 = 0"
  "opposite cut_kite 3 3 = 0" "opposite cut_kite 3 2 = 2"
  by (simp_all add: cut_kite_eq opposite_def)

lemma kite_copy1: "CopyInducedGraph cut_kite [0, 1, 2, 3] = Inr kite_block"
  unfolding CopyInducedGraph_def
  apply (simp add: make_undirected_def empty_graph_def new_node_def)
  apply (simp add: cut_kite_adj cut_kite_hidden cut_kite_opposite)
  apply (simp add: new_edge_def ins_adj_edge_def cut_kite_eq)
  apply (simp add: kite_block_def fun_eq_iff)
  done

lemma kite_copy2:
  "\<exists>H. CopyInducedGraph cut_kite [4] = Inr H \<and> all_nodes H = [0] \<and> node_inf H 0 = 4"
  unfolding CopyInducedGraph_def
  apply (simp add: make_undirected_def empty_graph_def new_node_def)
  apply (simp add: cut_kite_adj cut_kite_hidden)
  done

lemma kite_search:
  "\<exists>s P. triedge_dfs 13 (init_state kite_block) 0 None [] = Some (Inr (s, P)) \<and>
     dfs_sigma s 0 = [0, 2] \<and> dfs_sigma s (Suc 0) = [1] \<and> dfs_sigma s 2 = [] \<and>
     dfs_sigma s 3 = [3]"
  by (simp add: eval_nat_numeral Let_def init_state_def kite_block_def
     tree_edge_def back_edge_def contract_deg2_def absorb_or_extend_def AbsorbPath_def
     AbsorbPath_uv_def absorb_loop.simps conc_sigma_def First_Inout_Edge_def first_adj_edge_def
     Succ_Inout_Edge_def first_visible_def is_hidden_def opposite_def degree_def adj_visible_def
     hide_edge_def move_edge_def ins_adj_edge_def del_adj_edge_def
     removeAll_upd removeAll_const fun_upd_same fun_upd_other del: fun_upd_apply)


lemma kite_block1:
  "\<exists>st. process_block 13 cut_kite [0, Suc 0, 2, 3] \<lparr> sigma3 = [], compnum = (\<lambda>_. - 1) \<rparr> =
       Some (Inr st) \<and>
     sigma3 st = [[2, 0], [1], [3]] \<and> compnum st 0 = 0 \<and> compnum st (Suc 0) = 1 \<and>
     compnum st 2 = 0 \<and> compnum st 3 = 2 \<and> compnum st 4 = - 1"
proof -
  from kite_search obtain s P where
    t: "triedge_dfs 13 (init_state kite_block) 0 None [] = Some (Inr (s, P))" and
    sg: "dfs_sigma s 0 = [0, 2]" "dfs_sigma s (Suc 0) = [1]" "dfs_sigma s 2 = []"
      "dfs_sigma s 3 = [3]"
    by (elim exE conjE) (rule that, assumption+)
  let ?st0 = "\<lparr> sigma3 = [], compnum = (\<lambda>_. - 1) \<rparr>"
  have c: "CopyInducedGraph cut_kite [0, Suc 0, 2, 3] = Inr kite_block"
    using kite_copy1 by simp
  have n: "all_nodes kite_block = [0, Suc 0, 2, 3]" "length (visible_edges kite_block) = 5"
    "node_inf kite_block = (\<lambda>v. v)"
    by (simp_all add: kite_block_def visible_edges_def)
  have fr: "find_root kite_block (all_nodes kite_block) = Some 0"
    by (simp add: kite_block_def degree_def adj_visible_def)
  have l: "\<not> length (all_nodes kite_block) \<le> 1" "length (visible_edges kite_block) \<noteq> 1"
    by (simp_all add: n)
  have "process_block 13 cut_kite [0, Suc 0, 2, 3] ?st0 =
      Some (Inr (emit_sigma kite_block (dfs_sigma s) (all_nodes kite_block) ?st0))"
    by (simp only: process_block_def c l fr t sum.case option.case prod.case if_False)
  then have "process_block 13 cut_kite [0, Suc 0, 2, 3] ?st0 =
      Some (Inr (emit_sigma kite_block (dfs_sigma s) [0, Suc 0, 2, 3] ?st0))"
    by (simp only: n)
  moreover have "sigma3 (emit_sigma kite_block (dfs_sigma s) [0, Suc 0, 2, 3] ?st0) =
      [[2, 0], [1], [3]]"
    by (simp add: sg push_inf_def n)
  moreover have "compnum (emit_sigma kite_block (dfs_sigma s) [0, Suc 0, 2, 3] ?st0) 0 = 0"
    "compnum (emit_sigma kite_block (dfs_sigma s) [0, Suc 0, 2, 3] ?st0) (Suc 0) = 1"
    "compnum (emit_sigma kite_block (dfs_sigma s) [0, Suc 0, 2, 3] ?st0) 2 = 0"
    "compnum (emit_sigma kite_block (dfs_sigma s) [0, Suc 0, 2, 3] ?st0) 3 = 2"
    "compnum (emit_sigma kite_block (dfs_sigma s) [0, Suc 0, 2, 3] ?st0) 4 = - 1"
    by (simp_all add: sg n)
  ultimately show ?thesis by blast
qed

lemma kite_block2:
  "process_block fuel cut_kite [4] st = Some (Inr (st\<lparr> sigma3 := sigma3 st @ [[4]] \<rparr>))"
proof -
  from kite_copy2 obtain H where h: "CopyInducedGraph cut_kite [4] = Inr H"
    "all_nodes H = [0]" "node_inf H 0 = 4"
    by (elim exE conjE) (rule that, assumption+)
  then show ?thesis by (simp add: process_block_def)
qed

lemma cut_kite_visible: "visible_edges cut_kite = [0, 1, 2, 3, 4]"
  by (simp add: visible_edges_def cut_kite_eq)

lemma cut_kite_ends:
  "source cut_kite 0 = 0" "source cut_kite (Suc 0) = 1" "source cut_kite 2 = 2"
  "source cut_kite 3 = 3" "source cut_kite 4 = 0"
  "target cut_kite 0 = 1" "target cut_kite (Suc 0) = 2" "target cut_kite 2 = 3"
  "target cut_kite 3 = 0" "target cut_kite 4 = 2"
  by (simp_all add: cut_kite_eq)

lemma kite_run:
  "\<exists>r. TRICONNECTED_COMPONENTS 13 kite [] [] [] = Some (Inr r) \<and>
     tri_G r = cut_kite \<and> tri_sigma3 r = [[2, 0], [1], [3], [4]] \<and>
     tri_cut_edges r = [3, 2, 1, 0] \<and> tri_bridges r = [5] \<and> tri_deg1edges r = []"
proof -
  let ?sp = "\<lparr> sp_num = 2, sp_G = cut_kite, sp_bridges = [5],
           sp_sigma = [[0, 1, 2, 3], [4]], sp_deg1edges = [] \<rparr>"
  from kite_block1 obtain st1 where
    b1: "process_block 13 cut_kite [0, Suc 0, 2, 3] \<lparr> sigma3 = [], compnum = (\<lambda>_. - 1) \<rparr> =
       Some (Inr st1)" and
    s1: "sigma3 st1 = [[2, 0], [1], [3]]" and
    c1: "compnum st1 0 = 0" "compnum st1 (Suc 0) = 1" "compnum st1 2 = 0" "compnum st1 3 = 2"
      "compnum st1 4 = - 1"
    by (elim exE conjE) (rule that, assumption+)
  let ?st = "st1\<lparr> sigma3 := sigma3 st1 @ [[4]] \<rparr>"
  have b: "\<forall>e \<in> set (sp_bridges ?sp). is_hidden (sp_G ?sp) e"
    by (simp add: cut_kite_hidden)
  have p: "process_blocks 13 (sp_G ?sp) (take (sp_num ?sp) (sp_sigma ?sp))
           \<lparr> sigma3 = [], compnum = (\<lambda>_. - 1) \<rparr> = Some (Inr ?st)"
    by (simp add: b1 kite_block2)
  have c: "collect_cut_edges cut_kite (compnum st1) (visible_edges cut_kite) [] = [3, 2, 1, 0]"
    by (simp add: cut_kite_visible cut_kite_ends cut_kite_hidden c1)
  from TRICONNECTED_COMPONENTS_split[OF kite_not_biconnected kite_split b p, of "[]"]
  show ?thesis by (simp add: c s1)
qed

theorem cut_edges_exact_witness:
  "nodes_ok kite \<and>
   (\<exists>r. TRICONNECTED_COMPONENTS 13 kite [] [] [] = Some (Inr r) \<and>
      tri_G r = hide_edge kite 5 \<and> tri_sigma3 r = [[2, 0], [1], [3], [4]] \<and>
      tri_cut_edges r = [3, 2, 1, 0] \<and>
      {e \<in> set (visible_edges (hide_edge kite 5)).
         different_components [[2, 0], [1], [3], [4]] (source kite e) (target kite e)} =
      {0, 1, 2, 3})"
proof -
  from kite_run obtain r where
    r: "TRICONNECTED_COMPONENTS 13 kite [] [] [] = Some (Inr r)" and
    f: "tri_G r = cut_kite" "tri_sigma3 r = [[2, 0], [1], [3], [4]]"
       "tri_cut_edges r = [3, 2, 1, 0]"
    by (elim exE conjE) (rule that, assumption+)
  from cut_edges_exact[OF nodes_ok_kite r]
  have "\<forall>e. e \<in> set (tri_cut_edges r) \<longleftrightarrow> e \<in> set (visible_edges (tri_G r)) \<and>
      different_components (tri_sigma3 r) (source kite e) (target kite e)" by blast
  then have "{e \<in> set (visible_edges (tri_G r)).
         different_components (tri_sigma3 r) (source kite e) (target kite e)} =
      set (tri_cut_edges r)" by blast
  also have "\<dots> = {0, 1, 2, 3}" unfolding f by auto
  finally have "{e \<in> set (visible_edges (hide_edge kite 5)).
         different_components [[2, 0], [1], [3], [4]] (source kite e) (target kite e)} =
      {0, 1, 2, 3}"
    unfolding f cut_kite_def .
  with r f nodes_ok_kite show ?thesis unfolding cut_kite_def by blast
qed

section \<open>A self-loop ends the scan\<close>

lemma dfs_edges_self_loop:
  "\<not> is_hidden (dfs_G s) ewu \<Longrightarrow> opposite (dfs_G s) w ewu = w \<Longrightarrow> v \<noteq> Some w \<Longrightarrow>
   dfs_edges (Suc n) s w v (Some ewu) Pw Pu =
     Some (Inr (s\<lparr> dfs_G := hide_edge (dfs_G s) ewu \<rparr>, Pw, Pu))"
  by (simp add: Let_def)

lemma K4_with_loop_facts:
  "First_Inout_Edge K4_with_loop 0 = Some 0" "\<not> is_hidden K4_with_loop 0"
  "opposite K4_with_loop 0 0 = 0" "adj_visible K4_with_loop 0 = [0, 0, 1, 2, 3]"
  by (simp_all add: K4_with_loop_def First_Inout_Edge_def first_visible_def is_hidden_def
        opposite_def adj_visible_def)

text \<open>
  Claim C2 (what the code does). At a self-loop the loop of \<^verbatim>\<open>triedge_dfs\<close> hides the
  edge and leaves the loop with \<^verbatim>\<open>break\<close>. On the complete graph on four nodes with a
  self-loop in front of the list of the root, the search returns after that one edge:
  the edges 1, 2 and 3 of the root are never examined and no other node is visited.
\<close>

theorem self_loop_ends_scan:
  "adj_visible K4_with_loop 0 = [0, 0, 1, 2, 3] \<and>
   triedge_dfs (Suc (Suc n)) (init_state K4_with_loop) 0 None [] =
     Some (Inr ((init_state K4_with_loop)
       \<lparr> pre := (\<lambda>_. - 1)(0 := 0), count2 := 1, lowpt := (\<lambda>_. 0)(0 := 0),
          father := (\<lambda>_. None)(0 := None), dfs_G := hide_edge K4_with_loop 0 \<rparr>, [0]))"
  by (simp add: Let_def init_state_def K4_with_loop_facts dfs_edges_self_loop
        del: dfs_edges.simps)

section \<open>An absorption that does not return\<close>

lemma hub_input_read:
  "\<exists>G. read_dim empty_graph 8 11
       [(0, 1), (0, 6), (0, 7), (1, 2), (2, 3), (3, 1), (1, 4), (4, 5), (5, 1), (1, 6), (1, 7)] =
       Inr G \<and> make_undirected G = hub_input"
  apply (simp add: read_dim_def clear_def eval_nat_numeral new_node_def empty_graph_def array_read_def)
  apply (simp add: new_edge_def ins_adj_edge_def make_undirected_def hub_input_def)
  apply (auto simp: fun_eq_iff)
  done


























end
